theory Spec2Isabelle
  imports Complex_Main
begin

section \<open>JavaScript strings\<close>

text \<open>
  A JavaScript string is a sequence of UTF-16 code units; a code unit is modelled as a
  natural number.  \<open>jstr\<close> turns an ASCII literal into such a sequence.
\<close>

type_synonym jstring = "nat list"

definition jstr :: "string \<Rightarrow> jstring" where
  "jstr s = map of_char s"

text \<open>\<open>String.prototype.startsWith\<close>.\<close>

definition startsWith :: "jstring \<Rightarrow> jstring \<Rightarrow> bool" where
  "startsWith s p = (take (length p) s = p)"

text \<open>\<open>String.prototype.includes\<close>.\<close>

fun includes_str :: "jstring \<Rightarrow> jstring \<Rightarrow> bool" where
  "includes_str [] sub = (sub = [])"
| "includes_str (x # xs) sub = (startsWith (x # xs) sub \<or> includes_str xs sub)"

text \<open>
  ECMAScript white space and line terminators: the code units removed by
  \<open>String.prototype.trim\<close> and matched by \<open>\s\<close> in a regular expression.
\<close>

definition isWhite :: "nat \<Rightarrow> bool" where
  "isWhite c = (c \<in> {9, 10, 11, 12, 13, 32, 160, 5760, 8232, 8233, 8239, 8287, 12288, 65279}
     \<or> (8192 \<le> c \<and> c \<le> 8202))"

definition trim :: "jstring \<Rightarrow> jstring" where
  "trim s = rev (dropWhile isWhite (rev (dropWhile isWhite s)))"

text \<open>
  \<open>s.split(sep)\<close> for a non-empty separator: the string is read left to right; at each
  occurrence of the separator the piece read so far is emitted and the separator is
  skipped (\<open>k\<close> counts the code units of the separator still to skip).
\<close>

fun split_go :: "jstring \<Rightarrow> nat \<Rightarrow> jstring \<Rightarrow> jstring \<Rightarrow> jstring list" where
  "split_go sep k acc [] = [rev acc]"
| "split_go sep k acc (x # xs) =
     (if 0 < k then split_go sep (k - 1) acc xs
      else if sep \<noteq> [] \<and> startsWith (x # xs) sep
        then rev acc # split_go sep (length sep - 1) [] xs
      else split_go sep 0 (x # acc) xs)"

definition split :: "jstring \<Rightarrow> jstring \<Rightarrow> jstring list" where
  "split s sep = split_go sep 0 [] s"

text \<open>\<open>s.replace(pat, '')\<close> with a string pattern: the first occurrence is removed.\<close>

fun removeFirst :: "jstring \<Rightarrow> jstring \<Rightarrow> jstring" where
  "removeFirst [] pat = []"
| "removeFirst (x # xs) pat =
     (if startsWith (x # xs) pat then drop (length pat) (x # xs)
      else x # removeFirst xs pat)"

text \<open>
  Decimal digits: \<open>parseDec\<close> is the natural number that a string of digits writes, and
  \<open>showNat\<close> writes a natural number in decimal.
\<close>

definition digit :: "nat \<Rightarrow> bool" where
  "digit c = (48 \<le> c \<and> c \<le> 57)"

definition parseDec :: "jstring \<Rightarrow> nat" where
  "parseDec s = foldl (\<lambda>a c. 10 * a + (c - 48)) 0 s"

fun showNat :: "nat \<Rightarrow> jstring" where
  "showNat n = (if n < 10 then [48 + n] else showNat (n div 10) @ [48 + n mod 10])"

declare showNat.simps [simp del]

section \<open>Numbers\<close>

text \<open>
  The numbers of the language are IEEE 754 doubles.  \<open>fl x\<close> is the double nearest to
  the rational \<open>x\<close>, ties to the even significand: with \<open>2^e \<le> |x| < 2^(e+1)\<close> the
  doubles around \<open>x\<close> are the multiples of \<open>2^(e-52)\<close>.  The exponent is not bounded
  here, so \<open>fl\<close> is the rounding of the language between the smallest normal double
  and the largest one, which covers every percentile and every length of a history.
  A division or a product of two doubles is \<open>fl\<close> of the exact result.
\<close>

fun bitlen :: "nat \<Rightarrow> nat" where
  "bitlen n = (if n = 0 then 0 else Suc (bitlen (n div 2)))"

declare bitlen.simps [simp del]

definition ilog2 :: "rat \<Rightarrow> int" where
  "ilog2 x = (if 1 \<le> x then int (bitlen (nat \<lfloor>x\<rfloor>)) - 1
              else - int (bitlen (nat (\<lceil>1 / x\<rceil> - 1))))"

definition pow2 :: "int \<Rightarrow> rat" where
  "pow2 k = (if 0 \<le> k then 2 ^ nat k else 1 / 2 ^ nat (- k))"

definition roundHalfEven :: "rat \<Rightarrow> int" where
  "roundHalfEven x =
     (let f = \<lfloor>x\<rfloor>; d = x - of_int f
      in if d < 1 / 2 then f else if 1 / 2 < d then f + 1 else if even f then f else f + 1)"

definition fl :: "rat \<Rightarrow> rat" where
  "fl x =
     (if x = 0 then 0
      else sgn x * of_int (roundHalfEven (\<bar>x\<bar> * pow2 (52 - ilog2 \<bar>x\<bar>))) * pow2 (ilog2 \<bar>x\<bar> - 52))"

text \<open>
  A number of the program is held here as a rational.  The finite doubles lie strictly
  between \<open>- 2^1024\<close> and \<open>2^1024\<close>, and these two rationals stand for \<open>-Infinity\<close>
  and \<open>Infinity\<close>: the comparisons of the language are then the comparisons of the
  rationals.  \<open>toDouble x\<close> is the number the language holds for the exact value \<open>x\<close>:
  the nearest double, or an infinity when that rounding reaches \<open>2^1024\<close>.
\<close>

definition Infinity :: rat where
  "Infinity = 2 ^ 1024"

definition toDouble :: "rat \<Rightarrow> rat" where
  "toDouble x = (let y = fl x in if Infinity \<le> \<bar>y\<bar> then sgn x * Infinity else y)"

text \<open>
  \<open>parseInt(s, 10)\<close> and \<open>Number(s)\<close> on a string of decimal digits, which is all the
  program applies them to (captures of \<open>\d+\<close>): the double nearest to the number
  written, as the engine of Node.js computes it.
\<close>

definition parseInt :: "jstring \<Rightarrow> rat" where
  "parseInt s = toDouble (of_nat (parseDec s))"

text \<open>
  The string form of a number that is a non-negative integer or \<open>Infinity\<close>, which is
  what \<open>parseInt\<close> gives.  An integer below \<open>2^53\<close> is written with all its digits.
  From there on the language writes the shortest decimal that reads back as the same
  double: \<open>shortest v d k\<close> looks, for \<open>k = 1, 2, ...\<close> significant digits, at the two
  multiples of \<open>10^(d - k)\<close> around \<open>v\<close> (\<open>d\<close> is the number of digits of \<open>v\<close>), and
  takes the nearer one when both read back as \<open>v\<close>.  The decimal is written in full
  up to 21 digits and with an exponent beyond.
\<close>

definition readsBack :: "nat \<Rightarrow> nat \<Rightarrow> bool" where
  "readsBack c v = (toDouble (of_nat c) = of_nat v)"

fun shortest :: "nat \<Rightarrow> nat \<Rightarrow> nat \<Rightarrow> nat \<Rightarrow> nat" where
  "shortest v d k 0 = v"
| "shortest v d k (Suc fuel) =
     (let u = 10 ^ (d - k); lo = (v div u) * u; hi = lo + u
      in if readsBack lo v \<and> readsBack hi v then
           (if v - lo < hi - v then lo
            else if hi - v < v - lo then hi
            else if even (v div u) then lo else hi)
         else if readsBack lo v then lo
         else if readsBack hi v then hi
         else shortest v d (Suc k) fuel)"

definition stripZeros :: "jstring \<Rightarrow> jstring" where
  "stripZeros s = rev (dropWhile (\<lambda>c. c = 48) (rev s))"

definition numberToString :: "rat \<Rightarrow> jstring" where
  "numberToString v =
     (if v = Infinity then jstr ''Infinity''
      else if v < 2 ^ 53 then showNat (nat \<lfloor>v\<rfloor>)
      else
        let n = nat \<lfloor>v\<rfloor>;
            ds = showNat (shortest n (length (showNat n)) 1 (length (showNat n)));
            sig = stripZeros ds
        in if length ds \<le> 21 then ds
           else (if length sig \<le> 1 then sig else hd sig # 46 # tl sig)
                  @ jstr ''e+'' @ showNat (length ds - 1))"

section \<open>Regular expressions\<close>

text \<open>
  The fragment of ECMAScript regular expressions the program uses, with the
  backtracking semantics of the language: \<open>ms r s\<close> lists, in the order in which the
  backtracking matcher tries them, the states in which a match of \<open>r\<close> started in state
  \<open>s\<close> can end.  A state is the position in the subject, the rest of the subject and the
  captures made so far.  \<open>Star\<close> is the greedy \<open>*\<close>: one more iteration is tried before
  stopping, and an iteration that consumes nothing is rejected.
\<close>

datatype gkey = Idx nat | Name jstring

type_synonym caps = "(gkey \<times> jstring) list"
type_synonym mstate = "nat \<times> jstring \<times> caps"

datatype re =
    Eps
  | Chr nat
  | Cls "nat \<Rightarrow> bool"
  | Seq re re
  | Alt re re
  | Star re
  | Grp gkey re
  | Bol
  | Eol

fun iter :: "nat \<Rightarrow> (mstate \<Rightarrow> mstate list) \<Rightarrow> mstate \<Rightarrow> mstate list" where
  "iter 0 f s = [s]"
| "iter (Suc n) f s =
     concat (map (iter n f)
       (filter (\<lambda>t. length (fst (snd t)) < length (fst (snd s))) (f s))) @ [s]"

primrec ms :: "re \<Rightarrow> mstate \<Rightarrow> mstate list" where
  "ms Eps s = [s]"
| "ms (Chr c) s =
     (case fst (snd s) of [] \<Rightarrow> []
      | x # xs \<Rightarrow> if x = c then [(Suc (fst s), xs, snd (snd s))] else [])"
| "ms (Cls P) s =
     (case fst (snd s) of [] \<Rightarrow> []
      | x # xs \<Rightarrow> if P x then [(Suc (fst s), xs, snd (snd s))] else [])"
| "ms (Seq a b) s = concat (map (ms b) (ms a s))"
| "ms (Alt a b) s = ms a s @ ms b s"
| "ms (Star r) s = iter (length (fst (snd s))) (ms r) s"
| "ms (Grp k r) s =
     map (\<lambda>t. (fst t, fst (snd t), (k, take (fst t - fst s) (fst (snd s))) # snd (snd t)))
       (ms r s)"
| "ms Bol s = (if fst s = 0 then [s] else [])"
| "ms Eol s = (if fst (snd s) = [] then [s] else [])"

text \<open>
  \<open>s.match(r)\<close> without the \<open>g\<close> flag: the leftmost start position at which the
  matcher succeeds, with the first success there.
\<close>

fun search :: "re \<Rightarrow> nat \<Rightarrow> jstring \<Rightarrow> mstate option" where
  "search r p [] = (case ms r (p, [], []) of [] \<Rightarrow> None | m # _ \<Rightarrow> Some m)"
| "search r p (x # xs) =
     (case ms r (p, x # xs, []) of [] \<Rightarrow> search r (Suc p) xs | m # _ \<Rightarrow> Some m)"

definition match :: "jstring \<Rightarrow> re \<Rightarrow> caps option" where
  "match s r = map_option (\<lambda>m. snd (snd m)) (search r 0 s)"

text \<open>\<open>m[i]\<close> of a match; every group of the program's expressions takes part in a match.\<close>

definition grp :: "caps \<Rightarrow> nat \<Rightarrow> jstring" where
  "grp cs i = (case map_of cs (Idx i) of Some s \<Rightarrow> s | None \<Rightarrow> [])"

definition lit :: "string \<Rightarrow> re" where
  "lit s = foldr (\<lambda>c r. Seq (Chr (of_char c)) r) s Eps"

definition Plus :: "re \<Rightarrow> re" where
  "Plus r = Seq r (Star r)"

definition Opt :: "re \<Rightarrow> re" where
  "Opt r = Alt r Eps"

text \<open>\<open>.\<close> matches every code unit but the line terminators.\<close>

definition dot :: "nat \<Rightarrow> bool" where
  "dot c = (c \<noteq> 10 \<and> c \<noteq> 13 \<and> c \<noteq> 8232 \<and> c \<noteq> 8233)"

section \<open>The runtime: an in-memory key/value store\<close>

text \<open>
  An item is an object: the list of its own fields.  The values held in the fields are
  integers (as the seeded jobs hold; an integer that is a double, so below \<open>2^53\<close> in
  size) and strings.  Reading a field, \<open>item[f]\<close>, follows the prototype of the object:
  a name that is not a field of the item but a member of \<open>Object.prototype\<close> reads as
  that member, a function (for \<open>__proto__\<close>, the prototype itself), and every other
  name reads as \<open>undefined\<close>.
\<close>

datatype jsval = VUndefined | VNumber int | VString jstring | VInherited jstring

type_synonym item = "(jstring \<times> jsval) list"

definition objectPrototype :: "jstring list" where
  "objectPrototype = map jstr
     [''constructor'', ''__defineGetter__'', ''__defineSetter__'', ''hasOwnProperty'',
      ''__lookupGetter__'', ''__lookupSetter__'', ''isPrototypeOf'', ''propertyIsEnumerable'',
      ''toString'', ''valueOf'', ''__proto__'', ''toLocaleString'']"

definition field :: "item \<Rightarrow> jstring \<Rightarrow> jsval" where
  "field it f =
     (case map_of it f of
        Some v \<Rightarrow> v
      | None \<Rightarrow> if f \<in> set objectPrototype then VInherited f else VUndefined)"

text \<open>
  The string form of an inherited member, as Node.js writes it: the source text of a
  built-in function, and \<open>[object Object]\<close> for the prototype.
\<close>

definition inheritedText :: "jstring \<Rightarrow> jstring" where
  "inheritedText n =
     (if n = jstr ''__proto__'' then jstr ''[object Object]''
      else jstr ''function '' @ (if n = jstr ''constructor'' then jstr ''Object'' else n)
             @ jstr ''() { [native code] }'')"

text \<open>\<open>String(v)\<close>.\<close>

fun String :: "jsval \<Rightarrow> jstring" where
  "String VUndefined = jstr ''undefined''"
| "String (VNumber i) = (if i < 0 then 45 # showNat (nat (- i)) else showNat (nat i))"
| "String (VString s) = s"
| "String (VInherited n) = inheritedText n"

text \<open>
  The \<open>Map\<close> of class \<open>Runtime\<close>, in insertion order.  \<open>kvSet\<close> on a key that is there
  replaces the value in place.
\<close>

record Runtime =
  kvStore :: "(jstring \<times> item) list"

definition kvGet :: "Runtime \<Rightarrow> jstring \<Rightarrow> item option" where
  "kvGet rt key = map_of (kvStore rt) key"

definition kvSet :: "Runtime \<Rightarrow> jstring \<Rightarrow> item \<Rightarrow> Runtime" where
  "kvSet rt key v =
     (if key \<in> fst ` set (kvStore rt)
      then rt\<lparr>kvStore := map (\<lambda>(k, w). if k = key then (k, v) else (k, w)) (kvStore rt)\<rparr>
      else rt\<lparr>kvStore := kvStore rt @ [(key, v)]\<rparr>)"

definition kvScan :: "Runtime \<Rightarrow> jstring \<Rightarrow> item list" where
  "kvScan rt pre = map snd (filter (\<lambda>(k, v). startsWith k pre) (kvStore rt))"

text \<open>
  \<open>httpPost\<close> is a stub in the source: it contacts nothing, touches no state and
  resolves to \<open>{ ok: true }\<close>.
\<close>

definition httpPost :: "jstring list \<Rightarrow> bool" where
  "httpPost args = True"

section \<open>The pipeline interpreter\<close>

text \<open>
  The context of one request: the runtime, the path variables (the named groups of the
  match of the path) and the query parameters, in the order of the query string.  The
  object of the named groups of a match has no prototype.  When the path has no
  variable, \<open>m.groups\<close> is \<open>undefined\<close> and the path variables are the object \<open>{}\<close>,
  which has none of its own and inherits the members of \<open>Object.prototype\<close>: this is
  the case in which the list is empty.
\<close>

record ctx =
  runtime :: Runtime
  pathVars :: "(jstring \<times> jstring) list"
  searchParams :: "(jstring \<times> jstring) list"

text \<open>\<open>URLSearchParams.getAll\<close>.\<close>

definition getAll :: "(jstring \<times> jstring) list \<Rightarrow> jstring \<Rightarrow> jstring list" where
  "getAll sp name = map snd (filter (\<lambda>(k, v). k = name) sp)"

text \<open>The errors the program raises; \<open>TypeError\<close> is the read of \<open>m[1]\<close> on a failed match.\<close>

datatype error =
    InvalidPathPart jstring
  | UnknownCapability jstring
  | InvalidScan jstring
  | UnsupportedFilter jstring
  | UnsupportedPrecondition jstring
  | PreconditionFailed jstring
  | FilterNotArray
  | UnsupportedSegment jstring
  | TypeError

text \<open>The current value of a pipeline: nothing yet, an array of items, or one item.\<close>

datatype pdata = DUndefined | DArray "item list" | DItem item

definition endsWith :: "jstring \<Rightarrow> jstring \<Rightarrow> bool" where
  "endsWith s p = (length p \<le> length s \<and> drop (length s - length p) s = p)"

definition evaluateExpression :: "jstring \<Rightarrow> ctx \<Rightarrow> jstring" where
  "evaluateExpression expr c =
     foldl (\<lambda>result tok.
        if (startsWith tok [34] \<and> endsWith tok [34]) \<or> (startsWith tok [39] \<and> endsWith tok [39])
          then result @ butlast (tl tok)
        else (case map_of (pathVars c) tok of
                Some v \<Rightarrow> result @ v
              | None \<Rightarrow>
                  if pathVars c = [] \<and> tok \<in> set objectPrototype
                    then result @ inheritedText tok
                  else result @ tok))
       [] (map trim (split expr [43]))"

text \<open>
  \<open>splitArgs\<close>: the loop over the characters, with its state \<open>current\<close>, \<open>inQuote\<close> and
  \<open>quoteChar\<close>.
\<close>

fun splitArgs_go :: "jstring \<Rightarrow> bool \<Rightarrow> nat \<Rightarrow> jstring \<Rightarrow> jstring list" where
  "splitArgs_go current inQuote quoteChar [] = (if current \<noteq> [] then [current] else [])"
| "splitArgs_go current inQuote quoteChar (ch # rest) =
     (if inQuote
        then splitArgs_go (current @ [ch]) (ch \<noteq> quoteChar) quoteChar rest
      else if ch = 34 \<or> ch = 39
        then splitArgs_go (current @ [ch]) True ch rest
      else if ch = 44
        then current # splitArgs_go [] False quoteChar rest
      else splitArgs_go (current @ [ch]) False quoteChar rest)"

definition splitArgs :: "jstring \<Rightarrow> jstring list" where
  "splitArgs str = splitArgs_go [] False 0 str"

definition parseArgs :: "jstring \<Rightarrow> ctx \<Rightarrow> jstring list" where
  "parseArgs argsStr c = map (\<lambda>part. evaluateExpression (trim part) c) (splitArgs argsStr)"

text \<open>
  \<open>toLowerCase\<close> on the ASCII letters; the code units beyond ASCII are left as they are
  (the claims below concern only the \<open>in\<close> form of a filter, which does not lower).
\<close>

definition toLowerCase :: "jstring \<Rightarrow> jstring" where
  "toLowerCase s = map (\<lambda>c. if 65 \<le> c \<and> c \<le> 90 then c + 32 else c) s"

definition evaluateFilter :: "jstring \<Rightarrow> item \<Rightarrow> ctx \<Rightarrow> error + bool" where
  "evaluateFilter cond it c =
     (if includes_str cond (jstr '' in '') then
        (case split cond (jstr '' in '') of
           fld # rest # _ \<Rightarrow>
             let value = field it (trim fld);
                 param = removeFirst (trim rest) (jstr ''?q.'');
                 vals = getAll (searchParams c) param
             in Inr (length vals = 0 \<or> String value \<in> set vals)
         | _ \<Rightarrow> Inl TypeError)
      else if includes_str cond (jstr ''~'') then
        (case split cond (jstr ''~'') of
           fld # rest # _ \<Rightarrow>
             let value = field it (trim fld);
                 param = removeFirst (trim rest) (jstr ''?q.'');
                 query = (case getAll (searchParams c) param of [] \<Rightarrow> [] | v # _ \<Rightarrow> v)
             in Inr (includes_str (toLowerCase (String value)) (toLowerCase query))
         | _ \<Rightarrow> Inl TypeError)
      else Inl (UnsupportedFilter cond))"

text \<open>The regular expression \<^verbatim>\<open>/(U\d+)\s*[^[]*\[(.+)\]/\<close> of \<open>evaluatePrecondition\<close>.\<close>

definition re_precondition :: re where
  "re_precondition =
     Seq (Grp (Idx 1) (Seq (Chr 85) (Plus (Cls digit))))
    (Seq (Star (Cls isWhite))
    (Seq (Star (Cls (\<lambda>c. c \<noteq> 91)))
    (Seq (Chr 91)
    (Seq (Grp (Idx 2) (Plus (Cls dot)))
         (Chr 93)))))"

definition evaluatePrecondition :: "jstring \<Rightarrow> ctx \<Rightarrow> error + bool" where
  "evaluatePrecondition cond c =
     (case match cond re_precondition of
        None \<Rightarrow> Inl (UnsupportedPrecondition cond)
      | Some m \<Rightarrow>
          let fld = grp m 1;
              vals = map trim (split (grp m 2) [44]);
              key = jstr ''j:'' @ (case map_of (pathVars c) (jstr ''U1'') of
                                    Some v \<Rightarrow> v
                                  | None \<Rightarrow> jstr ''undefined'')
          in (case kvGet (runtime c) key of
                None \<Rightarrow> Inr False
              | Some it \<Rightarrow> Inr (String (field it fld) \<in> set vals)))"

text \<open>
  The regular expressions of \<open>executePipeline\<close>:
  \<^verbatim>\<open>/kv\.scan\("(.*)"\)/\<close>, \<^verbatim>\<open>/kv\.get\((.+)\)/\<close>, \<^verbatim>\<open>/filter\((.+)\)/\<close>,
  \<^verbatim>\<open>/page\((\d+)\)/\<close>, \<^verbatim>\<open>/req\((.+)\)/\<close> and \<^verbatim>\<open>/http\.post\((.+)\)/\<close>.
\<close>

definition re_scan :: re where
  \<open>re_scan = Seq (lit ''kv.scan("'') (Seq (Grp (Idx 1) (Star (Cls dot))) (lit ''")''))\<close>

definition re_call :: "string \<Rightarrow> re" where
  "re_call name = Seq (lit name) (Seq (Chr 40) (Seq (Grp (Idx 1) (Plus (Cls dot))) (Chr 41)))"

definition re_page :: re where
  "re_page = Seq (lit ''page('') (Seq (Grp (Idx 1) (Plus (Cls digit))) (Chr 41))"

text \<open>\<open>data.filter(item => evaluateFilter(cond, item, ctx))\<close>: the first throw ends it.\<close>

fun filter_items :: "jstring \<Rightarrow> ctx \<Rightarrow> item list \<Rightarrow> error + item list" where
  "filter_items cond c [] = Inr []"
| "filter_items cond c (it # its) =
     (case evaluateFilter cond it c of
        Inl e \<Rightarrow> Inl e
      | Inr keep \<Rightarrow>
          (case filter_items cond c its of
             Inl e \<Rightarrow> Inl e
           | Inr r \<Rightarrow> Inr (if keep then it # r else r)))"

text \<open>
  \<open>executePipeline\<close>: the loop over the segments, with the current value \<open>data\<close> as an
  argument.  The branches are tried in the order of the source.  \<open>data.slice(0, n)\<close>
  keeps the first \<open>n\<close> items, all of them when there are fewer; an array has fewer than
  \<open>2^32\<close> items, so the rounding of \<open>n\<close> to a double, which begins at \<open>2^53\<close>, does not
  change what is kept, and \<open>n\<close> is taken here as the digits write it.
\<close>

fun exec_segments :: "jstring list \<Rightarrow> ctx \<Rightarrow> pdata \<Rightarrow> error + pdata" where
  "exec_segments [] c data = Inr data"
| "exec_segments (seg # segs) c data =
     (if startsWith seg (jstr ''kv.scan'') then
        (case match seg re_scan of
           None \<Rightarrow> Inl (InvalidScan seg)
         | Some m \<Rightarrow> exec_segments segs c (DArray (kvScan (runtime c) (grp m 1))))
      else if startsWith seg (jstr ''kv.get'') then
        (case match seg (re_call ''kv.get'') of
           None \<Rightarrow> Inl TypeError
         | Some m \<Rightarrow>
             (case kvGet (runtime c) (evaluateExpression (grp m 1) c) of
                None \<Rightarrow> exec_segments segs c DUndefined
              | Some it \<Rightarrow> exec_segments segs c (DItem it)))
      else if startsWith seg (jstr ''filter'') then
        (case match seg (re_call ''filter'') of
           None \<Rightarrow> Inl TypeError
         | Some m \<Rightarrow>
             (case data of
                DArray items \<Rightarrow>
                  (case filter_items (grp m 1) c items of
                     Inl e \<Rightarrow> Inl e
                   | Inr kept \<Rightarrow> exec_segments segs c (DArray kept))
              | _ \<Rightarrow> Inl FilterNotArray))
      else if startsWith seg (jstr ''page'') then
        (case match seg re_page of
           None \<Rightarrow> Inl TypeError
         | Some m \<Rightarrow>
             (case data of
                DArray items \<Rightarrow> exec_segments segs c (DArray (take (parseDec (grp m 1)) items))
              | _ \<Rightarrow> exec_segments segs c data))
      else if startsWith seg (jstr ''req'') then
        (case match seg (re_call ''req'') of
           None \<Rightarrow> Inl TypeError
         | Some m \<Rightarrow>
             (case evaluatePrecondition (grp m 1) c of
                Inl e \<Rightarrow> Inl e
              | Inr ok \<Rightarrow>
                  if \<not> ok then Inl (PreconditionFailed (grp m 1))
                  else exec_segments segs c data))
      else if startsWith seg (jstr ''http.post'') then
        (case match seg (re_call ''http.post'') of
           None \<Rightarrow> Inl TypeError
         | Some m \<Rightarrow>
             let posted = httpPost (parseArgs (grp m 1) c)
             in exec_segments segs c data)
      else if startsWith seg (jstr ''!'') then exec_segments segs c data
      else Inl (UnsupportedSegment seg))"

definition executePipeline :: "jstring list \<Rightarrow> ctx \<Rightarrow> error + pdata" where
  "executePipeline segs c = exec_segments segs c DUndefined"

section \<open>The property checker\<close>

text \<open>
  The parsed program, as \<open>parseNova\<close> returns it: the mappings keep the order of the
  declarations.  A mapping that is \<open>None\<close> is absent from the object (the source tests
  \<open>ast.properties\<close>, \<open>ast.routes\<close> and \<open>ast.enums\<close> before it reads them).
\<close>

record ast =
  enums :: "(jstring \<times> jstring list) list option"
  properties :: "(jstring \<times> jstring) list option"
  routes :: "(jstring \<times> jstring) list option"

text \<open>
  The regular expressions \<^verbatim>\<open>/U(\d+)\(x\)\s*([<>]=?|>=|<=)\s*(\d+)/\<close>, where the last two
  alternatives are the single code units U+2265 and U+2264, and
  \<^verbatim>\<open>/mono\(\s*(U\d+)\s*,\s*E(\d+)\s*\)/i\<close>.
\<close>

definition re_cmp :: re where
  "re_cmp =
     Seq (Chr 85)
    (Seq (Grp (Idx 1) (Plus (Cls digit)))
    (Seq (lit ''(x)'')
    (Seq (Star (Cls isWhite))
    (Seq (Grp (Idx 2)
           (Alt (Seq (Cls (\<lambda>c. c = 60 \<or> c = 62)) (Opt (Chr 61)))
           (Alt (Chr 8805) (Chr 8804))))
    (Seq (Star (Cls isWhite))
         (Grp (Idx 3) (Plus (Cls digit))))))))"

text \<open>Under the flag \<open>i\<close> an ASCII letter of the pattern matches both of its cases.\<close>

definition ci :: "char \<Rightarrow> re" where
  "ci ch = Cls (\<lambda>c. toLowerCase [c] = toLowerCase [of_char ch])"

definition re_mono :: re where
  "re_mono =
     Seq (ci CHR ''m'') (Seq (ci CHR ''o'') (Seq (ci CHR ''n'') (Seq (ci CHR ''o'')
    (Seq (Chr 40)
    (Seq (Star (Cls isWhite))
    (Seq (Grp (Idx 1) (Seq (ci CHR ''U'') (Plus (Cls digit))))
    (Seq (Star (Cls isWhite))
    (Seq (Chr 44)
    (Seq (Star (Cls isWhite))
    (Seq (ci CHR ''E'')
    (Seq (Grp (Idx 2) (Plus (Cls digit)))
    (Seq (Star (Cls isWhite))
         (Chr 41)))))))))))))"

text \<open>
  The prefix of the scan.  The source has this block twice, word for word, once for each
  shape of property.  \<open>Object.values(ast.routes)[0]\<close> of an empty mapping is \<open>undefined\<close>,
  and \<open>split\<close> on it throws.
\<close>

definition scanPrefix :: "ast \<Rightarrow> error + jstring" where
  "scanPrefix a =
     (case routes a of
        None \<Rightarrow> Inr (jstr ''j:'')
      | Some [] \<Rightarrow> Inl TypeError
      | Some ((k, firstRoute) # _) \<Rightarrow>
          (case map trim (split firstRoute (jstr ''::'')) of
             _ # p1 # _ \<Rightarrow>
               if p1 \<noteq> [] \<and> startsWith p1 (jstr ''kv.scan'') then
                 (case match p1 re_scan of
                    Some m \<Rightarrow> Inr (grp m 1)
                  | None \<Rightarrow> Inr (jstr ''j:''))
               else Inr (jstr ''j:'')
           | _ \<Rightarrow> Inr (jstr ''j:'')))"

text \<open>
  \<open>Number(v)\<close>; \<open>None\<close> is \<open>NaN\<close>.  The conversion of a string to a number is a
  built-in of the language that is not spelled out here: it is the parameter \<open>strNum\<close>.
  A function or an object that is not a number converts to \<open>NaN\<close>.
\<close>

fun Number :: "(jstring \<Rightarrow> rat option) \<Rightarrow> jsval \<Rightarrow> rat option" where
  "Number strNum VUndefined = None"
| "Number strNum (VNumber i) = Some (of_int i)"
| "Number strNum (VString s) = strNum s"
| "Number strNum (VInherited n) = None"

text \<open>The \<open>switch\<close> on the comparator; it has no default branch.\<close>

definition cmpHolds :: "jstring \<Rightarrow> rat \<Rightarrow> rat \<Rightarrow> bool" where
  "cmpHolds op v t =
     (if op = jstr ''>'' then v > t
      else if op = jstr ''>='' then v \<ge> t
      else if op = jstr ''<'' then v < t
      else if op = jstr ''<='' then v \<le> t
      else True)"

fun cmpItems :: "(jstring \<Rightarrow> rat option) \<Rightarrow> jstring \<Rightarrow> jstring \<Rightarrow> rat \<Rightarrow> item list \<Rightarrow> bool" where
  "cmpItems strNum fld op t [] = True"
| "cmpItems strNum fld op t (it # its) =
     (if field it fld = VUndefined then cmpItems strNum fld op t its
      else (case Number strNum (field it fld) of
              None \<Rightarrow> False
            | Some v \<Rightarrow> if \<not> cmpHolds op v t then False else cmpItems strNum fld op t its))"

fun monoItems :: "jstring \<Rightarrow> jstring list \<Rightarrow> item list \<Rightarrow> bool" where
  "monoItems fld allowed [] = True"
| "monoItems fld allowed (it # its) =
     (if field it fld = VUndefined then monoItems fld allowed its
      else if String (field it fld) \<notin> set allowed then False
      else monoItems fld allowed its)"

text \<open>
  The spellings of the comparator that the pattern of a numeric property accepts:
  \<^verbatim>\<open>>\<close>, \<^verbatim>\<open>>=\<close>, \<^verbatim>\<open><\<close>, \<^verbatim>\<open><=\<close> and the code units U+2265 and U+2264.
\<close>

definition cmpOps :: "jstring set" where
  "cmpOps = {jstr ''>'', jstr ''>='', jstr ''<'', jstr ''<='', [8805], [8804]}"

text \<open>The Unicode comparators U+2265 and U+2264 are normalised to \<^verbatim>\<open>>=\<close> and \<^verbatim>\<open><=\<close>.\<close>

definition normaliseOp :: "jstring \<Rightarrow> jstring" where
  "normaliseOp op = (if op = [8805] then jstr ''>='' else if op = [8804] then jstr ''<='' else op)"

text \<open>
  The two blocks of the body of the loop over the properties.  The threshold is
  \<open>Number(cmpMatch[3])\<close>, the double that the digits write.
\<close>

definition checkCmp :: "(jstring \<Rightarrow> rat option) \<Rightarrow> ast \<Rightarrow> Runtime \<Rightarrow> jstring \<Rightarrow> error + bool" where
  "checkCmp strNum a rt prop =
     (case match prop re_cmp of
        None \<Rightarrow> Inr True
      | Some m \<Rightarrow>
          let fld = jstr ''U'' @ grp m 1;
              op = normaliseOp (grp m 2);
              threshold = parseInt (grp m 3)
          in (case scanPrefix a of
                Inl e \<Rightarrow> Inl e
              | Inr pre \<Rightarrow> Inr (cmpItems strNum fld op threshold (kvScan rt pre))))"

definition checkMono :: "ast \<Rightarrow> Runtime \<Rightarrow> jstring \<Rightarrow> error + bool" where
  "checkMono a rt prop =
     (case match prop re_mono of
        None \<Rightarrow> Inr True
      | Some m \<Rightarrow>
          let fld = grp m 1;
              enumId = jstr ''E'' @ grp m 2;
              allowed = (case enums a of
                           None \<Rightarrow> []
                         | Some es \<Rightarrow> (case map_of es enumId of Some vs \<Rightarrow> vs | None \<Rightarrow> []))
          in (case scanPrefix a of
                Inl e \<Rightarrow> Inl e
              | Inr pre \<Rightarrow> Inr (monoItems fld allowed (kvScan rt pre))))"

fun checkProps :: "(jstring \<Rightarrow> rat option) \<Rightarrow> ast \<Rightarrow> Runtime \<Rightarrow> jstring list \<Rightarrow> error + bool" where
  "checkProps strNum a rt [] = Inr True"
| "checkProps strNum a rt (prop # props) =
     (case checkCmp strNum a rt prop of
        Inl e \<Rightarrow> Inl e
      | Inr ok1 \<Rightarrow>
          if \<not> ok1 then Inr False
          else (case checkMono a rt prop of
                  Inl e \<Rightarrow> Inl e
                | Inr ok2 \<Rightarrow>
                    if \<not> ok2 then Inr False
                    else checkProps strNum a rt props))"

definition checkProperties :: "(jstring \<Rightarrow> rat option) \<Rightarrow> ast \<Rightarrow> Runtime \<Rightarrow> error + bool" where
  "checkProperties strNum a rt =
     (case properties a of
        None \<Rightarrow> Inr True
      | Some ps \<Rightarrow> checkProps strNum a rt (map snd ps))"

section \<open>The route compiler\<close>

record budget =
  percentile :: nat
  threshold :: nat

record route =
  "method" :: jstring
  path :: jstring
  regex :: re
  segments :: "jstring list"
  budgets :: "budget list"
  latencies :: "int list"

text \<open>\<open>parsePathPart\<close>, with \<^verbatim>\<open>/^([A-Z]+)\s+(.+)\s+->\s*(.+)$/\<close>; the result is the triple of
  \<open>method\<close>, \<open>path\<close> and \<open>returnType\<close>.\<close>

definition re_pathPart :: re where
  "re_pathPart =
     Seq Bol
    (Seq (Grp (Idx 1) (Plus (Cls (\<lambda>c. 65 \<le> c \<and> c \<le> 90))))
    (Seq (Plus (Cls isWhite))
    (Seq (Grp (Idx 2) (Plus (Cls dot)))
    (Seq (Plus (Cls isWhite))
    (Seq (lit ''->'')
    (Seq (Star (Cls isWhite))
    (Seq (Grp (Idx 3) (Plus (Cls dot)))
         Eol)))))))"

definition parsePathPart :: "jstring \<Rightarrow> error + (jstring \<times> jstring \<times> jstring)" where
  "parsePathPart pathPart =
     (case match pathPart re_pathPart of
        None \<Rightarrow> Inl (InvalidPathPart pathPart)
      | Some m \<Rightarrow> Inr (grp m 1, trim (grp m 2), trim (grp m 3)))"

text \<open>
  \<open>buildPathRegex\<close>: every \<^verbatim>\<open>{name}\<close> of the template (an opening brace, at least one
  code unit other than a closing brace, a closing brace) becomes the named group
  \<^verbatim>\<open>(?<name>[^/]+)\<close>, and the result is anchored at both ends.  The source hands the rest of
  the template to \<open>RegExp\<close> as it is; here it is matched literally, which is the same
  as long as the template has, outside its placeholders, no character that is special
  in a regular expression, and its names are distinct identifiers.
\<close>

fun buildPath_go :: "jstring option \<Rightarrow> jstring \<Rightarrow> re" where
  "buildPath_go None [] = Eol"
| "buildPath_go None (c # cs) =
     (if c = 123 \<and> cs \<noteq> [] \<and> hd cs \<noteq> 125 \<and> 125 \<in> set cs
        then buildPath_go (Some []) cs
      else Seq (Chr c) (buildPath_go None cs))"
| "buildPath_go (Some name) [] = Eol"
| "buildPath_go (Some name) (c # cs) =
     (if c = 125
        then Seq (Grp (Name name) (Plus (Cls (\<lambda>x. x \<noteq> 47)))) (buildPath_go None cs)
      else buildPath_go (Some (name @ [c])) cs)"

definition buildPathRegex :: "jstring \<Rightarrow> re" where
  "buildPathRegex p = Seq Bol (buildPath_go None p)"

definition parsePipeline :: "jstring \<Rightarrow> jstring list" where
  "parsePipeline pipelineStr = map trim (split pipelineStr (jstr ''|''))"

text \<open>The budget literal \<^verbatim>\<open>/p(\d+)<(\d+)(ms|s)/\<close> and the name of a call
  \<^verbatim>\<open>/^([a-zA-Z0-9_.]+)\(/\<close>.\<close>

definition re_budget :: re where
  "re_budget =
     Seq (Chr 112)
    (Seq (Grp (Idx 1) (Plus (Cls digit)))
    (Seq (Chr 60)
    (Seq (Grp (Idx 2) (Plus (Cls digit)))
         (Grp (Idx 3) (Alt (lit ''ms'') (lit ''s''))))))"

definition capChar :: "nat \<Rightarrow> bool" where
  "capChar c = ((97 \<le> c \<and> c \<le> 122) \<or> (65 \<le> c \<and> c \<le> 90) \<or> digit c \<or> c = 95 \<or> c = 46)"

definition re_capability :: re where
  "re_capability = Seq Bol (Seq (Grp (Idx 1) (Plus (Cls capChar))) (Chr 40))"

definition parseBudget :: "jstring \<Rightarrow> budget option" where
  "parseBudget seg =
     (case match seg re_budget of
        None \<Rightarrow> None
      | Some m \<Rightarrow>
          Some \<lparr>percentile = parseDec (grp m 1),
                threshold = (if grp m 3 = jstr ''s'' then parseDec (grp m 2) * 1000
                             else parseDec (grp m 2))\<rparr>)"

text \<open>
  The dictionary is a JSON file outside the sources at hand; the compiler reads of it
  only \<open>dictionary.capabilities[cap]\<close>, as a truth value.  It is given here by the own
  members of the object \<open>dictionary.capabilities\<close>, each with the truth of its value.
  The lookup follows the prototype, as every lookup of the language does, and the
  members that an object inherits are functions and objects, all of them true.
\<close>

type_synonym dictionary = "(jstring \<times> bool) list"

definition capability :: "dictionary \<Rightarrow> jstring \<Rightarrow> bool" where
  "capability d cap =
     (case map_of d cap of Some t \<Rightarrow> t | None \<Rightarrow> cap \<in> set objectPrototype)"

text \<open>The loop over the raw segments.\<close>

fun compileSegments :: "dictionary \<Rightarrow> jstring list \<Rightarrow> error + (jstring list \<times> budget list)" where
  "compileSegments capabilities [] = Inr ([], [])"
| "compileSegments capabilities (seg # rest) =
     (if startsWith seg (jstr ''!'') then
        (case compileSegments capabilities rest of
           Inl e \<Rightarrow> Inl e
         | Inr (ss, bs) \<Rightarrow>
             (case parseBudget seg of
                Some b \<Rightarrow> Inr (ss, b # bs)
              | None \<Rightarrow> Inr (ss, bs)))
      else
        (case match seg re_capability of
           Some m \<Rightarrow>
             if grp m 1 \<notin> {jstr ''filter'', jstr ''page'', jstr ''req''} \<and> \<not> capability capabilities (grp m 1)
               then Inl (UnknownCapability (grp m 1))
             else (case compileSegments capabilities rest of
                     Inl e \<Rightarrow> Inl e
                   | Inr (ss, bs) \<Rightarrow> Inr (seg # ss, bs))
         | None \<Rightarrow>
             (case compileSegments capabilities rest of
                Inl e \<Rightarrow> Inl e
              | Inr (ss, bs) \<Rightarrow> Inr (seg # ss, bs))))"

text \<open>
  The body of the loop of \<open>run\<close> that compiles one route; \<open>parts[0]\<close> and
  \<open>parts[1] || ''\<close> of the route split at \<^verbatim>\<open>::\<close> come first.
\<close>

definition routePathPart :: "jstring \<Rightarrow> jstring" where
  "routePathPart spec =
     (case map trim (split spec (jstr ''::'')) of p0 # _ \<Rightarrow> p0 | [] \<Rightarrow> [])"

definition routePipeline :: "jstring \<Rightarrow> jstring" where
  "routePipeline spec =
     (case map trim (split spec (jstr ''::'')) of _ # p1 # _ \<Rightarrow> p1 | _ \<Rightarrow> [])"

definition compileRoute :: "dictionary \<Rightarrow> jstring \<Rightarrow> error + route" where
  "compileRoute capabilities spec =
     (case parsePathPart (routePathPart spec) of
        Inl e \<Rightarrow> Inl e
      | Inr (m, p, returnType) \<Rightarrow>
          (case compileSegments capabilities (parsePipeline (routePipeline spec)) of
             Inl e \<Rightarrow> Inl e
           | Inr (ss, bs) \<Rightarrow>
               Inr \<lparr>method = m, path = p, regex = buildPathRegex p,
                    segments = ss, budgets = bs, latencies = []\<rparr>))"

fun compileRoutes :: "dictionary \<Rightarrow> jstring list \<Rightarrow> error + route list" where
  "compileRoutes capabilities [] = Inr []"
| "compileRoutes capabilities (spec # specs) =
     (case compileRoute capabilities spec of
        Inl e \<Rightarrow> Inl e
      | Inr r \<Rightarrow>
          (case compileRoutes capabilities specs of
             Inl e \<Rightarrow> Inl e
           | Inr rs \<Rightarrow> Inr (r # rs)))"

section \<open>The budget tracker\<close>

text \<open>
  The index of the percentile is computed in doubles: the quotient and the product are
  each rounded (\<open>fl\<close>).
\<close>

text \<open>\<open>Math.ceil((budget.percentile / 100) * sorted.length) - 1\<close>.\<close>

definition percentileIndex :: "nat \<Rightarrow> nat \<Rightarrow> int" where
  "percentileIndex p n = \<lceil>fl (fl (of_nat p / 100) * of_nat n)\<rceil> - 1"

text \<open>\<open>sorted[Math.max(0, idx)]\<close>; a read beyond the end of the array is \<open>undefined\<close>.\<close>

definition pVal :: "budget \<Rightarrow> int list \<Rightarrow> int option" where
  "pVal b lat =
     (let sorted = sort lat;
          i = nat (max 0 (percentileIndex (percentile b) (length sorted)))
      in if i < length sorted then Some (sorted ! i) else None)"

text \<open>What the handler writes to the console.\<close>

record advice =
  route :: jstring
  suggestion :: jstring

datatype log =
    BudgetViolation jstring jstring nat int nat
  | PropertyCheckFailed
  | Suggestion advice

text \<open>The loop over the budgets of a route; \<open>undefined > threshold\<close> is false.\<close>

fun budgetWarnings :: "jstring \<Rightarrow> jstring \<Rightarrow> int list \<Rightarrow> budget list \<Rightarrow> log list" where
  "budgetWarnings m p lat [] = []"
| "budgetWarnings m p lat (b # bs) =
     (case pVal b lat of
        Some v \<Rightarrow>
          if v > int (threshold b)
            then BudgetViolation m p (percentile b) v (threshold b) # budgetWarnings m p lat bs
          else budgetWarnings m p lat bs
      | None \<Rightarrow> budgetWarnings m p lat bs)"

section \<open>The optimisation advisor\<close>

text \<open>The two texts of the advisor; the second one is a template with the size in it.\<close>

definition addPage :: jstring where
  "addPage = jstr ''Add page(50) to limit results and improve latency.''"

definition reducePage :: "rat \<Rightarrow> jstring" where
  "reducePage n =
     jstr ''Reduce page size from '' @ numberToString n @ jstr '' to 50 to meet latency budget.''"

fun suggestOptimizations :: "ast \<Rightarrow> route list \<Rightarrow> advice list" where
  "suggestOptimizations a [] = []"
| "suggestOptimizations a (r # rs) =
     (if budgets r = [] then suggestOptimizations a rs
      else (case find (\<lambda>s. startsWith s (jstr ''page('')) (segments r) of
              None \<Rightarrow> \<lparr>route = path r, suggestion = addPage\<rparr> # suggestOptimizations a rs
            | Some pageSeg \<Rightarrow>
                (case match pageSeg re_page of
                   Some m \<Rightarrow>
                     if parseInt (grp m 1) > 50
                       then \<lparr>route = path r, suggestion = reducePage (parseInt (grp m 1))\<rparr>
                              # suggestOptimizations a rs
                     else suggestOptimizations a rs
                 | None \<Rightarrow> suggestOptimizations a rs)))"

section \<open>The dispatcher\<close>

text \<open>
  A request is the method, the path name and the query parameters of its URL.  The
  answer is the status 200 with the result of the pipeline, the status 400 with the
  error, or the status 404.
\<close>

record request =
  req_method :: jstring
  pathname :: jstring
  query :: "(jstring \<times> jstring) list"

datatype response = Ok pdata | Bad error | NotFound

record server =
  program :: ast
  store :: Runtime
  compiled :: "route list"

text \<open>\<open>m.groups\<close>: the named groups of a match, in the order of the pattern.\<close>

definition groups :: "caps \<Rightarrow> (jstring \<times> jstring) list" where
  "groups cs = concat (map (\<lambda>(k, v). case k of Name n \<Rightarrow> [(n, v)] | Idx i \<Rightarrow> []) (rev cs))"

text \<open>
  \<open>run\<close>, up to the creation of the server: the routes are compiled, and the first
  error ends \<open>run\<close> before a server exists.  The seeding of the store (random numbers,
  the clock) is left out: the seeded runtime is an argument.
\<close>

definition run :: "dictionary \<Rightarrow> ast \<Rightarrow> Runtime \<Rightarrow> error + server" where
  "run capabilities a rt =
     (case routes a of
        None \<Rightarrow> Inl TypeError
      | Some rs \<Rightarrow>
          (case compileRoutes capabilities (map snd rs) of
             Inl e \<Rightarrow> Inl e
           | Inr c \<Rightarrow> Inr \<lparr>program = a, store = rt, compiled = c\<rparr>))"

text \<open>
  The handler of the server: the loop over the compiled routes.  \<open>before\<close> holds the
  routes already passed, \<open>duration\<close> is the time the clock measured around the pipeline.
  The result is the answer, the lines written to the console and the compiled routes,
  of which the one that served the request has its history extended.
\<close>

fun handle_go ::
  "(jstring \<Rightarrow> rat option) \<Rightarrow> ast \<Rightarrow> Runtime \<Rightarrow> int \<Rightarrow> request \<Rightarrow> route list \<Rightarrow> route list
     \<Rightarrow> response \<times> log list \<times> route list" where
  "handle_go strNum a rt duration rq before [] = (NotFound, [], before)"
| "handle_go strNum a rt duration rq before (r # rest) =
     (if method r \<noteq> req_method rq then handle_go strNum a rt duration rq (before @ [r]) rest
      else
        (case match (pathname rq) (regex r) of
           None \<Rightarrow> handle_go strNum a rt duration rq (before @ [r]) rest
         | Some m \<Rightarrow>
             (case executePipeline (segments r)
                     \<lparr>runtime = rt, pathVars = groups m, searchParams = query rq\<rparr> of
                Inl e \<Rightarrow> (Bad e, [], before @ r # rest)
              | Inr result \<Rightarrow>
                  let r' = r\<lparr>latencies := latencies r @ [duration]\<rparr>;
                      all = before @ r' # rest;
                      warnings = budgetWarnings (req_method rq) (path r') (latencies r') (budgets r')
                  in (case checkProperties strNum a rt of
                        Inl e \<Rightarrow> (Bad e, warnings, all)
                      | Inr propsOk \<Rightarrow>
                          (Ok result,
                           warnings @ (if \<not> propsOk then [PropertyCheckFailed] else [])
                             @ map Suggestion (suggestOptimizations a all),
                           all)))))"

definition handle ::
  "(jstring \<Rightarrow> rat option) \<Rightarrow> server \<Rightarrow> int \<Rightarrow> request \<Rightarrow> response \<times> log list \<times> server" where
  "handle strNum srv duration rq =
     (case handle_go strNum (program srv) (store srv) duration rq [] (compiled srv) of
        (resp, logs, cs) \<Rightarrow> (resp, logs, srv\<lparr>compiled := cs\<rparr>))"

section \<open>Example data\<close>

text \<open>A small store, program and server, used to run the theorems below at concrete inputs.\<close>

definition ex_job1 :: item where
  "ex_job1 = [(jstr ''U1'', VString (jstr ''job1'')), (jstr ''U3'', VNumber 5), (jstr ''U4'', VNumber 2)]"

definition ex_job2 :: item where
  "ex_job2 = [(jstr ''U1'', VString (jstr ''job2'')), (jstr ''U3'', VNumber 7), (jstr ''U4'', VNumber 1)]"

definition ex_rt :: Runtime where
  "ex_rt = \<lparr>kvStore = [(jstr ''j:job1'', ex_job1), (jstr ''j:job2'', ex_job2)]\<rparr>"

definition ex_ast :: ast where
  \<open>ex_ast = \<lparr>enums = None,
     properties = Some [(jstr ''P1'', jstr ''U3(x) >= 0'')],
     routes = Some [(jstr ''R1'', jstr ''GET /j -> [M1] :: kv.scan("j:") | page(100) | !p99<500ms''),
                    (jstr ''R2'', jstr ''GET /j/{U1} -> M1 :: kv.get("j:"+U1)'')]\<rparr>\<close>

definition ex_route1 :: route where
  \<open>ex_route1 = \<lparr>method = jstr ''GET'', path = jstr ''/j'', regex = buildPathRegex (jstr ''/j''),
     segments = [jstr ''kv.scan("j:")'', jstr ''page(100)''],
     budgets = [\<lparr>percentile = 99, threshold = 500\<rparr>], latencies = []\<rparr>\<close>

definition ex_route2 :: route where
  \<open>ex_route2 = \<lparr>method = jstr ''GET'', path = jstr ''/j/{U1}'',
     regex = buildPathRegex (jstr ''/j/{U1}''),
     segments = [jstr ''kv.get("j:"+U1)''], budgets = [], latencies = []\<rparr>\<close>

definition ex_srv :: server where
  "ex_srv = \<lparr>program = ex_ast, store = ex_rt, compiled = [ex_route1, ex_route2]\<rparr>"

definition ex_itemA :: item where
  "ex_itemA = [(jstr ''name'', VString (jstr ''A'')), (jstr ''status'', VNumber 1)]"

definition ex_itemB :: item where
  "ex_itemB = [(jstr ''name'', VString (jstr ''B'')), (jstr ''status'', VNumber 2)]"

definition ex_route3 :: route where
  \<open>ex_route3 = \<lparr>method = jstr ''GET'', path = jstr ''/x/{U2}/{U1}'',
     regex = buildPathRegex (jstr ''/x/{U2}/{U1}''),
     segments = [jstr ''req(U4 in [2,3])'', jstr ''kv.get("j:"+U2)''], budgets = [], latencies = []\<rparr>\<close>

definition ex_srv3 :: server where
  "ex_srv3 = \<lparr>program = ex_ast, store = ex_rt, compiled = [ex_route3]\<rparr>"

definition ex_spec4 :: jstring where
  \<open>ex_spec4 = jstr ''GET /j/{U1} -> M1 :: req(U4 in [2,3]) | kv.scan("k:")''\<close>

definition ex_ast4 :: ast where
  "ex_ast4 = \<lparr>enums = None,
     properties = Some [(jstr ''P1'', jstr ''U3(x) >= 0'')],
     routes = Some [(jstr ''R1'', ex_spec4)]\<rparr>"

definition ex_rt4 :: Runtime where
  "ex_rt4 = \<lparr>kvStore = [(jstr ''k:1'', [(jstr ''U3'', VNumber (- 1))])]\<rparr>"

definition ex_astK :: ast where
  \<open>ex_astK = \<lparr>enums = None,
     properties = Some [(jstr ''P1'', jstr ''U3(x) >= 0'')],
     routes = Some [(jstr ''R1'', jstr ''GET /k -> [M1] :: kv.scan("k:") | page(10)'')]\<rparr>\<close>

definition ex_job3 :: item where
  "ex_job3 = [(jstr ''U1'', VString (jstr ''job3''))]"

definition ex_rt6 :: Runtime where
  "ex_rt6 = \<lparr>kvStore = [(jstr ''j:job1'', ex_job1), (jstr ''j:job3'', ex_job3)]\<rparr>"

text \<open>An example dictionary: the capabilities of the runtime.\<close>

definition ex_caps :: dictionary where
  "ex_caps = map (\<lambda>n. (jstr n, True))
     [''kv.get'', ''kv.set'', ''kv.scan'', ''http.post'', ''clock.now'', ''crypto.hash'']"

definition ex_ast5 :: ast where
  \<open>ex_ast5 = \<lparr>enums = None, properties = None,
     routes = Some [(jstr ''R1'', jstr ''GET /j/{U1} -> M1 :: kv.get("j:"+U1)''),
                    (jstr ''R2'', jstr ''GET /z -> M1 :: db.drop("x")'')]\<rparr>\<close>

definition ex_ast5b :: ast where
  \<open>ex_ast5b = \<lparr>enums = None, properties = None,
     routes = Some [(jstr ''R1'', jstr ''GET /j/{U1} -> M1 :: kv.get("j:"+U1)''),
                    (jstr ''R2'', jstr ''get /z :: kv.scan("j:")'')]\<rparr>\<close>

definition ex_ast5c :: ast where
  \<open>ex_ast5c = \<lparr>enums = None, properties = None,
     routes = Some [(jstr ''R1'', jstr ''GET /z -> M1 :: db-drop("x")'')]\<rparr>\<close>

definition ex_srv5c :: server where
  \<open>ex_srv5c = \<lparr>program = ex_ast5c, store = ex_rt,
     compiled = [\<lparr>method = jstr ''GET'', path = jstr ''/z'', regex = buildPathRegex (jstr ''/z''),
                  segments = [jstr ''db-drop("x")''], budgets = [], latencies = []\<rparr>]\<rparr>\<close>

definition ex_ast5d :: ast where
  \<open>ex_ast5d = \<lparr>enums = None, properties = None,
     routes = Some [(jstr ''R1'', jstr ''GET /z -> M1 :: toString("x")'')]\<rparr>\<close>

definition ex_srv5d :: server where
  \<open>ex_srv5d = \<lparr>program = ex_ast5d, store = ex_rt,
     compiled = [\<lparr>method = jstr ''GET'', path = jstr ''/z'', regex = buildPathRegex (jstr ''/z''),
                  segments = [jstr ''toString("x")''], budgets = [], latencies = []\<rparr>]\<rparr>\<close>

definition ex_history :: "int list" where
  "ex_history = map int [1..<100]"

definition ex_srv1 :: server where
  "ex_srv1 = \<lparr>program = ex_ast, store = ex_rt,
     compiled = [ex_route1\<lparr>budgets := [\<lparr>percentile = 7, threshold = 7\<rparr>],
                           latencies := ex_history\<rparr>]\<rparr>"

section \<open>Evaluation at concrete inputs\<close>

lemma jstr_simps: "jstr [] = []" "jstr (c # cs) = of_char c # jstr cs"
  by (simp_all add: jstr_def)

lemma lit_simps: "lit [] = Eps" "lit (c # cs) = Seq (Chr (of_char c)) (lit cs)"
  by (simp_all add: lit_def)

lemmas str_eval = jstr_simps lit_simps startsWith_def endsWith_def trim_def isWhite_def
  split_def digit_def dot_def parseDec_def

lemmas re_eval = match_def grp_def Plus_def Opt_def

lemmas ex_defs = ex_job1_def ex_job2_def ex_rt_def ex_ast_def ex_route1_def ex_route2_def ex_srv_def

section \<open>Lemmas on strings and on the matcher\<close>

lemma length_jstr [simp]: "length (jstr s) = length s"
  by (simp add: jstr_def)

lemma startsWith_Nil [simp]: "startsWith s []"
  by (simp add: startsWith_def)

lemma startsWith_Cons: "startsWith (x # xs) (y # ys) = (x = y \<and> startsWith xs ys)"
  by (auto simp: startsWith_def)

lemma startsWith_Nil_Cons [simp]: "\<not> startsWith [] (y # ys)"
  by (simp add: startsWith_def)

lemma startsWith_append [simp]: "startsWith (p @ s) p"
  by (simp add: startsWith_def)

lemma ms_lit:
  "ms (lit w) (p, s, cs) =
     (if startsWith s (jstr w) then [(p + length w, drop (length w) s, cs)] else [])"
proof (induction w arbitrary: p s)
  case Nil
  show ?case by (simp add: jstr_simps lit_simps)
next
  case (Cons c w)
  show ?case
  proof (cases s)
    case Nil
    then show ?thesis by (simp add: jstr_simps lit_simps)
  next
    case (Cons x xs)
    then show ?thesis using Cons.IH [of "Suc p" xs]
      by (simp add: startsWith_Cons jstr_simps lit_simps)
  qed
qed

lemma ms_Seq_lit: "ms (Seq (lit w) r) (p, jstr w @ s, cs) = ms r (p + length w, s, cs)"
  by (simp add: ms_lit)

lemma iter_Cls:
  "length s \<le> n \<Longrightarrow>
   iter n (ms (Cls P)) (p, s, cs) =
     map (\<lambda>k. (p + k, drop k s, cs)) (rev [0..<Suc (length (takeWhile P s))])"
proof (induction s arbitrary: n p)
  case Nil
  then show ?case by (cases n) simp_all
next
  case (Cons x xs)
  then obtain m where n: "n = Suc m" and m: "length xs \<le> m"
    by (cases n) auto
  show ?case
  proof (cases "P x")
    case False
    then show ?thesis by (simp add: n)
  next
    case True
    have up: "[0..<Suc (Suc (length (takeWhile P xs)))]
        = 0 # map Suc [0..<Suc (length (takeWhile P xs))]"
      by (metis map_Suc_upt upt_conv_Cons zero_less_Suc)
    show ?thesis
      using True Cons.IH [OF m, of "Suc p"]
      by (simp add: n up rev_map comp_def del: upt_Suc)
  qed
qed

lemma ms_Star_Cls:
  "ms (Star (Cls P)) (p, s, cs) =
     map (\<lambda>k. (p + k, drop k s, cs)) (rev [0..<Suc (length (takeWhile P s))])"
  by (simp add: iter_Cls)

lemma ms_Plus_Cls:
  "ms (Plus (Cls P)) (p, s, cs) =
     map (\<lambda>k. (p + k, drop k s, cs)) (rev [1..<Suc (length (takeWhile P s))])"
proof (cases s)
  case Nil
  then show ?thesis by (simp add: Plus_def)
next
  case (Cons x xs)
  show ?thesis
  proof (cases "P x")
    case False
    then show ?thesis by (simp add: Plus_def Cons)
  next
    case True
    have up: "[Suc 0..<Suc (Suc (length (takeWhile P xs)))]
        = map Suc [0..<Suc (length (takeWhile P xs))]"
      by (metis map_Suc_upt)
    show ?thesis
      using True
      by (simp add: Plus_def Cons ms_Star_Cls up rev_map comp_def del: upt_Suc ms.simps(6))
  qed
qed

lemma search_first: "ms r (0, s, []) = m # rest \<Longrightarrow> search r 0 s = Some m"
  by (cases s) simp_all

lemma match_first: "ms r (0, s, []) = m # rest \<Longrightarrow> match s r = Some (snd (snd m))"
  by (simp add: match_def search_first)


lemma concat_map_rev_upt_hd:
  assumes "a \<le> j" "j < b" "\<forall>k. j < k \<and> k < b \<longrightarrow> F k = []" "F j = y # ys"
  shows "\<exists>tl. concat (map F (rev [a..<b])) = y # tl"
proof -
  have "[a..<b] = [a..<j] @ [j..<b]"
    using assms(1,2) by (metis le_Suc_ex less_imp_le_nat upt_add_eq_append)
  then have split: "[a..<b] = [a..<j] @ j # [Suc j..<b]"
    using assms(2) by (simp add: upt_conv_Cons)
  have "concat (map F (rev [Suc j..<b])) = []"
    using assms(3) by (auto simp: concat_eq_Nil_conv)
  then have "concat (map F (rev [a..<b])) = y # (ys @ concat (map F (rev [a..<j])))"
    using assms(4) by (simp add: split)
  then show ?thesis by blast
qed

lemma ms_Seq_Grp_Plus:
  "ms (Seq (Grp g (Plus (Cls P))) r2) (p, s, cs) =
     concat (map (\<lambda>k. ms r2 (p + k, drop k s, (g, take k s) # cs))
       (rev [1..<Suc (length (takeWhile P s))]))"
  by (simp add: ms_Plus_Cls comp_def del: upt_Suc)

lemma ms_Seq_Grp_Star:
  "ms (Seq (Grp g (Star (Cls P))) r2) (p, s, cs) =
     concat (map (\<lambda>k. ms r2 (p + k, drop k s, (g, take k s) # cs))
       (rev [0..<Suc (length (takeWhile P s))]))"
  by (simp add: iter_Cls comp_def del: upt_Suc)

lemma ms_Seq_Star:
  "ms (Seq (Star (Cls P)) r2) (p, s, cs) =
     concat (map (\<lambda>k. ms r2 (p + k, drop k s, cs))
       (rev [0..<Suc (length (takeWhile P s))]))"
  by (simp add: iter_Cls comp_def del: upt_Suc)

lemma takeWhile_all: "\<forall>x\<in>set xs. P x \<Longrightarrow> takeWhile P (xs @ ys) = xs @ takeWhile P ys"
  by (induction xs) auto

lemma match_call:
  assumes "cond \<noteq> []" "\<forall>x\<in>set cond. dot x"
  shows "match (jstr name @ 40 # cond @ [41]) (re_call name) = Some [(Idx 1, cond)]"
proof -
  let ?q = "Suc (length name)"
  let ?s = "cond @ [41]"
  let ?F = "\<lambda>k. ms (Chr 41) (?q + k, drop k ?s, [(Idx 1, take k ?s)])"
  have L: "length (takeWhile dot ?s) = Suc (length cond)"
    using assms(2) by (simp add: takeWhile_all dot_def)
  have "\<exists>tl. concat (map ?F (rev [1..<Suc (Suc (length cond))])) =
      (Suc (?q + length cond), [], [(Idx 1, cond)]) # tl"
  proof (rule concat_map_rev_upt_hd [where j = "length cond"])
    show "1 \<le> length cond" using assms(1) by (cases cond) auto
    show "length cond < Suc (Suc (length cond))" by simp
    show "\<forall>k. length cond < k \<and> k < Suc (Suc (length cond)) \<longrightarrow> ?F k = []"
      by (auto simp: less_Suc_eq)
    show "?F (length cond) = [(Suc (?q + length cond), [], [(Idx 1, cond)])]"
      by simp
  qed
  then obtain tl where
    "ms (Seq (Grp (Idx 1) (Plus (Cls dot))) (Chr 41)) (?q, ?s, []) =
       (Suc (?q + length cond), [], [(Idx 1, cond)]) # tl"
    unfolding ms_Seq_Grp_Plus L by blast
  then have "ms (re_call name) (0, jstr name @ 40 # cond @ [41], []) =
       (Suc (?q + length cond), [], [(Idx 1, cond)]) # tl"
    by (simp add: re_call_def ms_lit del: ms.simps(7))
  then show ?thesis
    by (simp add: match_def search_first)
qed


lemma ms_Seq_Grp_Plus_greedy:
  assumes "xs \<noteq> []" "\<forall>x\<in>set xs. P x" "rest = [] \<or> \<not> P (hd rest)"
    and "ms r2 (p + length xs, rest, (g, xs) # cs) = y # ys"
  shows "\<exists>tl. ms (Seq (Grp g (Plus (Cls P))) r2) (p, xs @ rest, cs) = y # tl"
proof -
  have tw: "takeWhile P (xs @ rest) = xs"
    using assms(2,3) by (cases rest) (auto simp: takeWhile_all)
  have "\<exists>tl. concat (map (\<lambda>k. ms r2 (p + k, drop k (xs @ rest), (g, take k (xs @ rest)) # cs))
       (rev [1..<Suc (length xs)])) = y # tl"
  proof (rule concat_map_rev_upt_hd [where j = "length xs"])
    show "1 \<le> length xs" using assms(1) by (cases xs) auto
  qed (use assms(4) in auto)
  then show ?thesis
    unfolding ms_Seq_Grp_Plus tw .
qed

lemma ms_Seq_Star_greedy:
  assumes "\<forall>x\<in>set xs. P x" "rest = [] \<or> \<not> P (hd rest)"
    and "ms r2 (p + length xs, rest, cs) = y # ys"
  shows "\<exists>tl. ms (Seq (Star (Cls P)) r2) (p, xs @ rest, cs) = y # tl"
proof -
  have tw: "takeWhile P (xs @ rest) = xs"
    using assms(1,2) by (cases rest) (auto simp: takeWhile_all)
  have "\<exists>tl. concat (map (\<lambda>k. ms r2 (p + k, drop k (xs @ rest), cs))
       (rev [0..<Suc (length xs)])) = y # tl"
    by (rule concat_map_rev_upt_hd [where j = "length xs"]) (use assms(3) in auto)
  then show ?thesis
    unfolding ms_Seq_Star tw .
qed

lemma showNat_nonempty: "showNat n \<noteq> []"
  by (subst showNat.simps) simp

lemma showNat_digits: "\<forall>x\<in>set (showNat n). digit x"
proof (induction n rule: showNat.induct)
  case (1 n)
  show ?case
  proof (cases "n < 10")
    case True
    then show ?thesis by (subst showNat.simps) (simp add: digit_def)
  next
    case False
    have "n mod 10 < 10" by simp
    then have "digit (48 + n mod 10)" unfolding digit_def by linarith
    with False 1 show ?thesis by (subst showNat.simps) simp
  qed
qed

lemma parseDec_snoc: "parseDec (xs @ [d]) = 10 * parseDec xs + (d - 48)"
  by (simp add: parseDec_def)

lemma parseDec_showNat: "parseDec (showNat n) = n"
proof (induction n rule: showNat.induct)
  case (1 n)
  show ?case
  proof (cases "n < 10")
    case True
    then show ?thesis by (subst showNat.simps) (simp add: parseDec_def)
  next
    case False
    with 1 show ?thesis by (subst showNat.simps) (simp add: parseDec_snoc)
  qed
qed

lemma match_page:
  assumes "ds \<noteq> []" "\<forall>x\<in>set ds. digit x"
  shows "match (jstr ''page('' @ ds @ 41 # rest) re_page = Some [(Idx 1, ds)]"
proof -
  let ?p = "0 + length ''page(''"
  have "\<exists>tl. ms (Seq (Grp (Idx 1) (Plus (Cls digit))) (Chr 41)) (?p, ds @ 41 # rest, []) =
      (Suc (?p + length ds), rest, [(Idx 1, ds)]) # tl"
  proof (rule ms_Seq_Grp_Plus_greedy)
    show "41 # rest = [] \<or> \<not> digit (hd (41 # rest))" by (simp add: digit_def)
  qed (simp_all add: assms)
  then obtain tl where "ms re_page (0, jstr ''page('' @ ds @ 41 # rest, []) =
      (Suc (?p + length ds), rest, [(Idx 1, ds)]) # tl"
    unfolding re_page_def ms_Seq_lit by blast
  then show ?thesis
    by (simp add: match_def search_first)
qed

section \<open>Lemmas on the numbers\<close>

lemma bitlen_le: "n < 2 ^ k \<Longrightarrow> bitlen n \<le> k"
proof (induction k arbitrary: n)
  case 0
  then show ?case by (simp add: bitlen.simps)
next
  case (Suc k)
  have "n div 2 < 2 ^ k" using Suc.prems by auto
  from Suc.IH [OF this] show ?case by (subst bitlen.simps) simp
qed

lemma bitlen_bounds: "0 < n \<Longrightarrow> 2 ^ (bitlen n - 1) \<le> n \<and> n < 2 ^ bitlen n"
proof (induction n rule: bitlen.induct)
  case (1 n)
  show ?case
  proof (cases "n div 2 = 0")
    case True
    then have "n = 1" using 1(2) by auto
    then show ?thesis by (simp add: bitlen.simps)
  next
    case False
    then have pos: "0 < n div 2" by simp
    have ih: "2 ^ (bitlen (n div 2) - 1) \<le> n div 2 \<and> n div 2 < 2 ^ bitlen (n div 2)"
      using 1(1) 1(2) pos by simp
    have b: "bitlen n = Suc (bitlen (n div 2))"
      using 1(2) by (subst bitlen.simps) simp
    have bp: "0 < bitlen (n div 2)"
      using pos by (subst bitlen.simps) simp
    then obtain j where j: "bitlen (n div 2) = Suc j" by (cases "bitlen (n div 2)") auto
    have "2 * 2 ^ j \<le> n" using ih j by simp presburger
    moreover have "n < 2 * 2 ^ Suc j" using ih j by simp presburger
    ultimately show ?thesis by (simp add: b j)
  qed
qed

lemma ilog2_of_nat: "0 < n \<Longrightarrow> ilog2 (of_nat n) = int (bitlen n) - 1"
  by (simp add: ilog2_def)

lemma roundHalfEven_of_int: "roundHalfEven (of_int m) = m"
  by (simp add: roundHalfEven_def)

lemma fl_of_nat:
  assumes "n < 2 ^ 53"
  shows "fl (of_nat n) = of_nat n"
proof (cases "n = 0")
  case True
  then show ?thesis by (simp add: fl_def)
next
  case False
  then have pos: "0 < n" by simp
  define j where "j = 53 - bitlen n"
  have bl: "bitlen n \<le> 53" using bitlen_le [OF assms] .
  have bp: "0 < bitlen n" using pos by (subst bitlen.simps) simp
  have e: "ilog2 (of_nat n) = 52 - int j"
    using bl bp by (simp add: ilog2_of_nat [OF pos] j_def)
  have p1: "pow2 (52 - ilog2 (of_nat n)) = 2 ^ j"
    by (simp add: e pow2_def)
  have "ilog2 (of_nat n) - 52 = - int j"
    by (simp add: e)
  then have p2: "pow2 (ilog2 (of_nat n) - 52) = 1 / 2 ^ j"
    by (simp add: pow2_def)
  have "(of_nat n :: rat) * 2 ^ j = of_int (int (n * 2 ^ j))"
    by simp
  then have r: "roundHalfEven ((of_nat n :: rat) * 2 ^ j) = int (n * 2 ^ j)"
    using roundHalfEven_of_int [of "int (n * 2 ^ j)"] by simp
  have x: "(of_nat n :: rat) \<noteq> 0" "\<bar>of_nat n :: rat\<bar> = of_nat n" "sgn (of_nat n :: rat) = 1"
    using pos by simp_all
  have q: "rat_of_nat (n * 2 ^ j) / 2 ^ j = rat_of_nat n"
    by simp
  show ?thesis
    using q by (simp add: fl_def x p1 p2 r del: of_nat_mult of_nat_power)
qed

lemma toDouble_of_nat: "n < 2 ^ 53 \<Longrightarrow> toDouble (of_nat n) = of_nat n"
proof -
  assume n: "n < 2 ^ 53"
  have "(of_nat n :: rat) < 2 ^ 53" using n
    by (metis of_nat_less_iff of_nat_numeral of_nat_power)
  also have "\<dots> < 2 ^ 1024" by simp
  finally have "\<not> Infinity \<le> \<bar>of_nat n :: rat\<bar>" by (simp add: Infinity_def)
  then show ?thesis by (simp add: toDouble_def fl_of_nat [OF n])
qed


lemma fl_ge:
  assumes "2 ^ 53 \<le> n"
  shows "(2 :: rat) ^ 53 \<le> fl (of_nat n)"
proof -
  have pos: "0 < n" using assms by (cases n) auto
  define e where "e = bitlen n - 1"
  have b: "2 ^ e \<le> n" "n < 2 ^ bitlen n"
    using bitlen_bounds [OF pos] by (simp_all add: e_def)
  have "\<not> bitlen n \<le> 53"
  proof
    assume "bitlen n \<le> 53"
    then have "(2 :: nat) ^ bitlen n \<le> 2 ^ 53" by (intro power_increasing) simp_all
    then show False using b(2) assms by linarith
  qed
  then have e53: "53 \<le> e" by (simp add: e_def)
  then obtain j where j: "e = 52 + j" "0 < j"
    by (metis add.commute add_Suc_right less_eqE numeral_Bit1 one_add_one plus_1_eq_Suc
        zero_less_Suc numeral_plus_one semiring_norm(5) add.assoc le_Suc_ex)
  have il: "ilog2 (of_nat n) = int e"
    using e53 by (simp add: ilog2_of_nat [OF pos] e_def)
  have p1: "pow2 (52 - ilog2 (of_nat n)) = 1 / 2 ^ j"
    using j by (simp add: il pow2_def)
  have p2: "pow2 (ilog2 (of_nat n) - 52) = 2 ^ j"
    using j by (simp add: il pow2_def)
  have "(2 :: rat) ^ e \<le> of_nat n"
    using b(1) by (metis of_nat_le_iff of_nat_numeral of_nat_power)
  then have "(2 :: rat) ^ 52 * 2 ^ j \<le> of_nat n"
    by (simp add: j power_add)
  then have "(2 :: rat) ^ 52 \<le> of_nat n / 2 ^ j"
    by (simp add: pos_le_divide_eq)
  then have "(2 :: int) ^ 52 \<le> \<lfloor>(of_nat n :: rat) / 2 ^ j\<rfloor>"
    by (simp add: le_floor_iff)
  moreover have "\<lfloor>x\<rfloor> \<le> roundHalfEven x" for x :: rat
    by (simp add: roundHalfEven_def Let_def)
  ultimately have "(2 :: int) ^ 52 \<le> roundHalfEven ((of_nat n :: rat) / 2 ^ j)"
    by (metis order_trans)
  then have "(2 :: rat) ^ 52 \<le> of_int (roundHalfEven ((of_nat n :: rat) / 2 ^ j))"
    by (metis of_int_le_iff of_int_numeral of_int_power)
  then have B: "(2 :: rat) ^ 52 * 2 ^ j \<le> of_int (roundHalfEven ((of_nat n :: rat) / 2 ^ j)) * 2 ^ j"
    by simp
  have A: "(2 :: rat) ^ 53 \<le> 2 ^ 52 * 2 ^ j"
  proof -
    obtain i where "j = Suc i" using j(2) by (cases j) auto
    then show ?thesis by simp
  qed
  have x: "(of_nat n :: rat) \<noteq> 0" "\<bar>of_nat n :: rat\<bar> = of_nat n" "sgn (of_nat n :: rat) = 1"
    using pos by simp_all
  have flv: "fl (of_nat n) = of_int (roundHalfEven ((of_nat n :: rat) / 2 ^ j)) * 2 ^ j"
    using pos by (simp add: fl_def x p1 p2)
  show ?thesis
    unfolding flv using A B by (rule order_trans)
qed

lemma toDouble_ge: "2 ^ 53 \<le> n \<Longrightarrow> (2 :: rat) ^ 53 \<le> toDouble (of_nat n)"
proof -
  assume n: "2 ^ 53 \<le> n"
  then have pos: "0 < n" by (cases n) auto
  have "(2 :: rat) ^ 53 \<le> Infinity" by (simp add: Infinity_def)
  then show ?thesis
    using fl_ge [OF n] pos by (simp add: toDouble_def Let_def)
qed

lemma toDouble_gt_50: "(50 < toDouble (of_nat n)) = (50 < n)"
proof (cases "n < 2 ^ 53")
  case True
  then show ?thesis by (simp add: toDouble_of_nat)
next
  case False
  then have n: "2 ^ 53 \<le> n" by simp
  then have "50 < n" by simp
  moreover have "(50 :: rat) < 2 ^ 53" by simp
  ultimately show ?thesis using toDouble_ge [OF n] by linarith
qed

lemma numberToString_of_nat: "n < 2 ^ 53 \<Longrightarrow> numberToString (of_nat n) = showNat n"
proof -
  assume n: "n < 2 ^ 53"
  have lt: "(of_nat n :: rat) < 2 ^ 53" using n
    by (metis of_nat_less_iff of_nat_numeral of_nat_power)
  moreover have "(2 :: rat) ^ 53 < 2 ^ 1024" by simp
  ultimately have "(of_nat n :: rat) \<noteq> Infinity" by (simp add: Infinity_def)
  then show ?thesis using lt by (simp add: numberToString_def)
qed

lemma parseInt_showNat: "n < 2 ^ 53 \<Longrightarrow> parseInt (showNat n) = of_nat n"
  by (simp add: parseInt_def parseDec_showNat toDouble_of_nat)

lemma parseInt_gt_50: "(50 < parseInt (showNat n)) = (50 < n)"
  by (simp add: parseInt_def parseDec_showNat toDouble_gt_50)

lemma parseInt_small: "parseDec s < 2 ^ 53 \<Longrightarrow> parseInt s = of_nat (parseDec s)"
  by (simp add: parseInt_def toDouble_of_nat)

lemma numberToString_parseInt:
  "parseDec s < 2 ^ 53 \<Longrightarrow> numberToString (parseInt s) = showNat (parseDec s)"
  by (simp add: parseInt_small numberToString_of_nat)

lemma parseInt_gt_50_digits: "(50 < parseInt s) = (50 < parseDec s)"
  by (simp add: parseInt_def toDouble_gt_50)

section \<open>Lemmas on splitting and trimming\<close>

lemma split_go_no_sep:
  "sep \<noteq> [] \<Longrightarrow> \<forall>x\<in>set f. x \<noteq> hd sep \<Longrightarrow>
   split_go sep 0 acc (f @ s) = split_go sep 0 (rev f @ acc) s"
proof (induction f arbitrary: acc)
  case Nil
  show ?case by simp
next
  case (Cons x f)
  have "\<not> startsWith (x # f @ s) sep"
    using Cons.prems by (cases sep) (auto simp: startsWith_Cons)
  then show ?case using Cons by simp
qed

lemma split_go_skip: "split_go sep (length w) acc (w @ s) = split_go sep 0 acc s"
  by (induction w) simp_all

lemma split_go_sep:
  "sep \<noteq> [] \<Longrightarrow> split_go sep 0 acc (sep @ s) = rev acc # split_go sep 0 [] s"
proof (cases sep)
  case Nil
  then show "sep \<noteq> [] \<Longrightarrow> ?thesis" by simp
next
  case (Cons c w)
  have "startsWith (c # w @ s) (c # w)"
    using startsWith_append [of "c # w" s] by simp
  then show ?thesis using Cons split_go_skip [of sep w "[]" s] by simp
qed

lemma split_two:
  assumes "sep \<noteq> []" "\<forall>x\<in>set f. x \<noteq> hd sep" "\<forall>x\<in>set r. x \<noteq> hd sep"
  shows "split (f @ sep @ r) sep = [f, r]"
proof -
  have "split_go sep 0 [] (f @ sep @ r) = split_go sep 0 (rev f) (sep @ r)"
    using split_go_no_sep [OF assms(1,2), of "[]" "sep @ r"] by simp
  also have "\<dots> = f # split_go sep 0 [] r"
    using split_go_sep [OF assms(1), of "rev f" r] by simp
  also have "split_go sep 0 [] r = [r]"
    using split_go_no_sep [OF assms(1,3), of "[]" "[]"] by simp
  finally show ?thesis by (simp add: split_def)
qed

lemma dropWhile_none: "\<forall>x\<in>set xs. \<not> P x \<Longrightarrow> dropWhile P xs = xs"
  by (cases xs) auto

lemma trim_id: "\<forall>x\<in>set s. \<not> isWhite x \<Longrightarrow> trim s = s"
  by (simp add: trim_def dropWhile_none)

lemma removeFirst_prefix: "removeFirst (p @ s) p = s"
proof (cases "p @ s")
  case Nil
  then show ?thesis by simp
next
  case (Cons a list)
  have "startsWith (a # list) p"
    using startsWith_append [of p s] Cons by simp
  then have "removeFirst (a # list) p = drop (length p) (a # list)" by simp
  then show ?thesis using Cons by (metis append_eq_conv_conj)
qed

lemma includes_str_append: "includes_str (f @ sep @ r) sep"
proof (induction f)
  case Nil
  show ?case
  proof (cases "sep @ r")
    case Nil
    then show ?thesis by simp
  next
    case (Cons a list)
    have "startsWith (a # list) sep"
      using startsWith_append [of sep r] Cons by simp
    then show ?thesis using Cons by simp
  qed
next
  case (Cons x f)
  then show ?case by simp
qed

lemma evaluateFilter_in:
  assumes "\<forall>x\<in>set f. \<not> isWhite x" "\<forall>x\<in>set n. \<not> isWhite x"
  shows "evaluateFilter (f @ jstr '' in ?q.'' @ n) it c =
     Inr (getAll (searchParams c) n = []
          \<or> String (field it f) \<in> set (getAll (searchParams c) n))"
proof -
  let ?sep = "jstr '' in ''"
  let ?r = "jstr ''?q.'' @ n"
  have cond: "f @ jstr '' in ?q.'' @ n = f @ ?sep @ ?r"
    by (simp add: jstr_simps)
  have w32: "isWhite 32" by (simp add: isWhite_def)
  have hd: "hd ?sep = 32" "?sep \<noteq> []" by (simp_all add: jstr_simps)
  have f32: "\<forall>x\<in>set f. x \<noteq> hd ?sep" using assms(1) w32 hd(1) by metis
  have rw: "\<forall>x\<in>set ?r. \<not> isWhite x"
    using assms(2) by (auto simp: jstr_simps isWhite_def)
  then have r32: "\<forall>x\<in>set ?r. x \<noteq> hd ?sep" using w32 hd(1) by metis
  have sp: "split (f @ ?sep @ ?r) ?sep = [f, ?r]"
    by (rule split_two [OF hd(2) f32 r32])
  show ?thesis
    unfolding cond
    by (simp add: evaluateFilter_def includes_str_append sp trim_id [OF assms(1)] trim_id [OF rw]
        removeFirst_prefix Let_def)
qed

lemma filter_items_in:
  assumes "\<forall>x\<in>set f. \<not> isWhite x" "\<forall>x\<in>set n. \<not> isWhite x"
  shows "filter_items (f @ jstr '' in ?q.'' @ n) c items =
     Inr (filter (\<lambda>it. getAll (searchParams c) n = []
                        \<or> String (field it f) \<in> set (getAll (searchParams c) n)) items)"
  by (induction items) (simp_all add: evaluateFilter_in [OF assms])

section \<open>Lemmas on the advisor\<close>

lemma find_append_first:
  "\<forall>s\<in>set pre. \<not> P s \<Longrightarrow> P x \<Longrightarrow> find P (pre @ x # post) = Some x"
  by (induction pre) auto

lemma find_none: "\<forall>s\<in>set xs. \<not> P s \<Longrightarrow> find P xs = None"
  by (induction xs) auto

lemma suggest_Cons:
  "suggestOptimizations a (r # rs) = suggestOptimizations a [r] @ suggestOptimizations a rs"
  by (simp split: option.splits)

lemma suggest_concat:
  "suggestOptimizations a rs = concat (map (\<lambda>r. suggestOptimizations a [r]) rs)"
proof (induction rs)
  case Nil
  show ?case by simp
next
  case (Cons r rs)
  show ?case using Cons.IH suggest_Cons [of a r rs] by simp
qed

lemma suggest_no_budget: "budgets r = [] \<Longrightarrow> suggestOptimizations a [r] = []"
  by simp

lemma suggest_no_page:
  "budgets r \<noteq> [] \<Longrightarrow> \<forall>s\<in>set (segments r). \<not> startsWith s (jstr ''page('') \<Longrightarrow>
   suggestOptimizations a [r] = [\<lparr>route = path r, suggestion = addPage\<rparr>]"
  by (simp add: find_none)

lemma suggest_page:
  assumes "budgets r \<noteq> []"
    and "segments r = pre @ (jstr ''page('' @ ds @ jstr '')'' @ rest) # post"
    and "ds \<noteq> []" and "\<forall>x\<in>set ds. digit x"
    and "\<forall>s\<in>set pre. \<not> startsWith s (jstr ''page('')"
  shows "suggestOptimizations a [r] =
     (if 50 < parseDec ds
      then [\<lparr>route = path r, suggestion = reducePage (parseInt ds)\<rparr>] else [])"
proof -
  let ?seg = "jstr ''page('' @ ds @ jstr '')'' @ rest"
  have seg: "?seg = jstr ''page('' @ ds @ 41 # rest"
    by (simp add: jstr_simps)
  have "find (\<lambda>s. startsWith s (jstr ''page('')) (segments r) = Some ?seg"
    unfolding assms(2) by (rule find_append_first) (use assms(5) in simp_all)
  then show ?thesis
    using assms(1) by (simp add: seg match_page [OF assms(3,4)] grp_def parseInt_gt_50_digits)
qed

section \<open>Lemmas on the property checker and the handler\<close>

lemma scanPrefix_ok: "routes a \<noteq> Some [] \<Longrightarrow> \<exists>p. scanPrefix a = Inr p"
  by (auto simp: scanPrefix_def split: option.splits list.splits)

lemma checkCmp_ok: "routes a \<noteq> Some [] \<Longrightarrow> \<exists>b. checkCmp strNum a rt prop = Inr b"
  using scanPrefix_ok [of a] by (auto simp: checkCmp_def Let_def split: option.splits)

lemma checkMono_ok: "routes a \<noteq> Some [] \<Longrightarrow> \<exists>b. checkMono a rt prop = Inr b"
  using scanPrefix_ok [of a] by (auto simp: checkMono_def Let_def split: option.splits)

lemma checkProps_ok: "routes a \<noteq> Some [] \<Longrightarrow> \<exists>b. checkProps strNum a rt props = Inr b"
proof (induction props)
  case Nil
  show ?case by auto
next
  case (Cons p ps)
  obtain b1 where b1: "checkCmp strNum a rt p = Inr b1"
    using checkCmp_ok [OF Cons.prems] by blast
  obtain b2 where b2: "checkMono a rt p = Inr b2"
    using checkMono_ok [OF Cons.prems] by blast
  show ?case using Cons.IH [OF Cons.prems] by (auto simp: b1 b2)
qed

lemma checkProperties_ok:
  "routes a \<noteq> Some [] \<Longrightarrow> \<exists>b. checkProperties strNum a rt = Inr b"
  using checkProps_ok [of a] by (auto simp: checkProperties_def split: option.splits)

lemma handle_go_find:
  assumes "routes a \<noteq> Some []"
  shows "fst (handle_go strNum a rt d rq before rs) =
     (case find (\<lambda>r. method r = req_method rq \<and> match (pathname rq) (regex r) \<noteq> None) rs of
        None \<Rightarrow> NotFound
      | Some r \<Rightarrow>
          (case match (pathname rq) (regex r) of
             None \<Rightarrow> NotFound
           | Some m \<Rightarrow>
               (case executePipeline (segments r)
                       \<lparr>runtime = rt, pathVars = groups m, searchParams = query rq\<rparr> of
                  Inl e \<Rightarrow> Bad e
                | Inr v \<Rightarrow> Ok v)))"
proof (induction rs arbitrary: before)
  case Nil
  show ?case by simp
next
  case (Cons r rs)
  obtain b where b: "checkProperties strNum a rt = Inr b"
    using checkProperties_ok [OF assms] by blast
  show ?case
    using Cons.IH by (auto simp: b Let_def split: option.splits sum.splits)
qed

lemma handle_go_static:
  "map (\<lambda>r. r\<lparr>latencies := []\<rparr>) (snd (snd (handle_go strNum a rt d rq before rs)))
     = map (\<lambda>r. r\<lparr>latencies := []\<rparr>) (before @ rs)"
proof (induction rs arbitrary: before)
  case Nil
  show ?case by simp
next
  case (Cons r rs)
  show ?case
    using Cons.IH [of "before @ [r]"]
    by (auto simp: Let_def split: option.splits sum.splits)
qed

lemma static_fields:
  assumes "r\<lparr>latencies := []\<rparr> = r'\<lparr>latencies := []\<rparr>"
  shows "method r = method r'" "regex r = regex r'" "segments r = segments r'"
    "path r = path r'" "budgets r = budgets r'"
proof -
  have "method (r\<lparr>latencies := []\<rparr>) = method (r'\<lparr>latencies := []\<rparr>)"
       "regex (r\<lparr>latencies := []\<rparr>) = regex (r'\<lparr>latencies := []\<rparr>)"
       "segments (r\<lparr>latencies := []\<rparr>) = segments (r'\<lparr>latencies := []\<rparr>)"
       "path (r\<lparr>latencies := []\<rparr>) = path (r'\<lparr>latencies := []\<rparr>)"
       "budgets (r\<lparr>latencies := []\<rparr>) = budgets (r'\<lparr>latencies := []\<rparr>)"
    using assms by simp_all
  then show "method r = method r'" "regex r = regex r'" "segments r = segments r'"
    "path r = path r'" "budgets r = budgets r'"
    by simp_all
qed

lemma handle_go_response:
  "map (\<lambda>r. r\<lparr>latencies := []\<rparr>) rs = map (\<lambda>r. r\<lparr>latencies := []\<rparr>) rs' \<Longrightarrow>
   fst (handle_go strNum a rt d rq before rs) = fst (handle_go strNum a rt d' rq before' rs')"
proof (induction rs arbitrary: rs' before before')
  case Nil
  then show ?case by simp
next
  case (Cons r rs)
  then obtain r' rest' where rs': "rs' = r' # rest'"
    and st: "r\<lparr>latencies := []\<rparr> = r'\<lparr>latencies := []\<rparr>"
    and rest: "map (\<lambda>r. r\<lparr>latencies := []\<rparr>) rs = map (\<lambda>r. r\<lparr>latencies := []\<rparr>) rest'"
    by (cases rs') auto
  note f = static_fields [OF st]
  show ?case
    using Cons.IH [OF rest, of "before @ [r]" "before' @ [r']"]
    by (auto simp: rs' f(1)[symmetric] f(2)[symmetric] f(3)[symmetric] Let_def
        split: option.splits sum.splits)
qed

lemma handle_fst:
  "fst (handle strNum srv d rq) =
     fst (handle_go strNum (program srv) (store srv) d rq [] (compiled srv))"
  by (simp add: handle_def split: prod.splits)

lemma handle_srv:
  "snd (snd (handle strNum srv d rq)) =
     srv\<lparr>compiled := snd (snd (handle_go strNum (program srv) (store srv) d rq [] (compiled srv)))\<rparr>"
  by (simp add: handle_def split: prod.splits)

lemma handle_static:
  "program (snd (snd (handle strNum srv d rq))) = program srv
   \<and> store (snd (snd (handle strNum srv d rq))) = store srv
   \<and> map (\<lambda>r. r\<lparr>latencies := []\<rparr>) (compiled (snd (snd (handle strNum srv d rq))))
       = map (\<lambda>r. r\<lparr>latencies := []\<rparr>) (compiled srv)"
  using handle_go_static [of strNum "program srv" "store srv" d rq "[]" "compiled srv"]
  by (simp add: handle_srv)

section \<open>Lemmas on the prefix of the scan\<close>

lemma not_includes_drop:
  "\<not> includes_str s sub \<Longrightarrow> sub \<noteq> [] \<Longrightarrow> \<not> startsWith (drop i s) sub"
proof (induction s arbitrary: i)
  case Nil
  then show ?case by (cases sub) simp_all
next
  case (Cons x xs)
  then show ?case by (cases i) simp_all
qed

lemma match_scan:
  assumes "\<forall>x\<in>set P. dot x" and \<open>\<not> includes_str rest (jstr ''")'')\<close>
  shows \<open>match (jstr ''kv.scan("'' @ P @ jstr ''")'' @ rest) re_scan = Some [(Idx 1, P)]\<close>
proof -
  let ?q = \<open>0 + length ''kv.scan("''\<close>
  let ?s = \<open>P @ jstr ''")'' @ rest\<close>
  let ?F = \<open>\<lambda>k. ms (lit ''")'') (?q + k, drop k ?s, [(Idx 1, take k ?s)])\<close>
  let ?L = "length (takeWhile dot ?s)"
  have tw: "takeWhile dot ?s = P @ takeWhile dot (jstr ''\")'' @ rest)"
    using assms(1) by (rule takeWhile_all)
  have L: "length P < Suc ?L"
    by (simp add: tw)
  have later: "\<forall>k. length P < k \<and> k < Suc ?L \<longrightarrow> ?F k = []"
  proof (intro allI impI)
    fix k assume k: "length P < k \<and> k < Suc ?L"
    then have "\<exists>i. k = length P + Suc i"
      by presburger
    then obtain i where i: "k = length P + Suc i" ..
    have "drop k ?s = drop (Suc i) (jstr ''\")'' @ rest)"
      by (simp add: i)
    also have "\<dots> = drop i (41 # rest)"
      by (simp add: jstr_simps)
    finally have d: "drop k ?s = drop i (41 # rest)" .
    have "\<not> startsWith (drop i (41 # rest)) (jstr ''\")'')"
    proof (cases i)
      case 0
      then show ?thesis by (simp add: jstr_simps startsWith_Cons)
    next
      case (Suc j)
      then show ?thesis
        using not_includes_drop [OF assms(2), of j] by (simp add: jstr_simps)
    qed
    then show "?F k = []"
      unfolding ms_lit d by simp
  qed
  have here: "?F (length P) = [(?q + length P + 2, rest, [(Idx 1, P)])]"
    by (simp add: ms_lit)
  have "\<exists>tl. concat (map ?F (rev [0..<Suc ?L])) = (?q + length P + 2, rest, [(Idx 1, P)]) # tl"
  proof (rule concat_map_rev_upt_hd [where j = "length P"])
    show "0 \<le> length P" by simp
    show "length P < Suc ?L" by (rule L)
    show "\<forall>k. length P < k \<and> k < Suc ?L \<longrightarrow> ?F k = []" by (rule later)
    show "?F (length P) = [(?q + length P + 2, rest, [(Idx 1, P)])]" by (rule here)
  qed
  then obtain tl where
    "ms re_scan (0, jstr ''kv.scan(\"'' @ ?s, []) = (?q + length P + 2, rest, [(Idx 1, P)]) # tl"
    unfolding re_scan_def ms_Seq_lit ms_Seq_Grp_Star by blast
  then show ?thesis
    by (simp add: match_def search_first)
qed

lemma scanPrefix_routePipeline:
  "routes a = Some ((k, spec) # others) \<Longrightarrow>
   scanPrefix a =
     Inr (if routePipeline spec \<noteq> [] \<and> startsWith (routePipeline spec) (jstr ''kv.scan'')
          then (case match (routePipeline spec) re_scan of
                  Some m \<Rightarrow> grp m 1
                | None \<Rightarrow> jstr ''j:'')
          else jstr ''j:'')"
  by (simp add: scanPrefix_def routePipeline_def split: list.splits option.splits)

section \<open>Lemmas on the patterns and the loops of the property checker\<close>

lemma ms_Seq_Chr: "ms (Seq (Chr c) r) (p, c # s, cs) = ms r (Suc p, s, cs)"
  by simp

lemma ms_Seq_Grp_hd:
  assumes "ms r (p, s, cs) = (p', s', cs') # rst"
    and "ms r5 (p', s', (g, take (p' - p) s) # cs') = y # ys"
  shows "\<exists>tl'. ms (Seq (Grp g r) r5) (p, s, cs) = y # tl'"
  using assms by simp

lemma ms_Grp_Plus_greedy:
  assumes "xs \<noteq> []" "\<forall>x\<in>set xs. P x" "rest = [] \<or> \<not> P (hd rest)"
  shows "\<exists>tl. ms (Grp g (Plus (Cls P))) (p, xs @ rest, cs) = (p + length xs, rest, (g, xs) # cs) # tl"
proof -
  have tw: "takeWhile P (xs @ rest) = xs"
    using assms(2,3) by (cases rest) (auto simp: takeWhile_all)
  have "Suc 0 \<le> length xs" using assms(1) by (cases xs) auto
  then have up: "rev [Suc 0..<Suc (length xs)] = length xs # rev [Suc 0..<length xs]"
    by simp
  show ?thesis
    by (simp add: ms_Plus_Cls tw up del: upt_Suc)
qed

lemma ms_op:
  assumes "op \<in> cmpOps" "rest = [] \<or> hd rest \<noteq> 61"
  shows "\<exists>tl. ms (Alt (Seq (Cls (\<lambda>c. c = 60 \<or> c = 62)) (Opt (Chr 61))) (Alt (Chr 8805) (Chr 8804)))
             (p, op @ rest, cs) = (p + length op, rest, cs) # tl"
  using assms by (cases rest) (auto simp: cmpOps_def jstr_simps Opt_def)

lemma op_not_white: "op \<in> cmpOps \<Longrightarrow> \<not> isWhite (hd (op @ rest))"
  by (auto simp: cmpOps_def jstr_simps isWhite_def)

lemma digit_not_white: "digit x \<Longrightarrow> \<not> isWhite x"
  by (auto simp: digit_def isWhite_def)

lemma search_here: "ms r (p, s, []) = m # rest \<Longrightarrow> search r p s = Some m"
  by (cases s) simp_all

lemma ms_re_cmp_Nil: "x \<noteq> 85 \<Longrightarrow> ms re_cmp (p, x # xs, cs) = []"
  by (simp add: re_cmp_def)

lemma search_re_cmp_skip:
  "85 \<notin> set pre \<Longrightarrow> search re_cmp p (pre @ t) = search re_cmp (p + length pre) t"
proof (induction pre arbitrary: p)
  case Nil
  show ?case by simp
next
  case (Cons x pre)
  have "search re_cmp p ((x # pre) @ t) = search re_cmp (Suc p) (pre @ t)"
    using Cons.prems by (simp add: ms_re_cmp_Nil)
  also have "\<dots> = search re_cmp (Suc p + length pre) t"
    by (rule Cons.IH) (use Cons.prems in simp)
  finally show ?case by simp
qed

lemma match_cmp:
  assumes pre: "85 \<notin> set pre"
    and ds: "ds \<noteq> []" "\<forall>x\<in>set ds. digit x"
    and wsa: "\<forall>x\<in>set wsa. isWhite x" and wsb: "\<forall>x\<in>set wsb. isWhite x"
    and op: "op \<in> cmpOps"
    and ns: "ns \<noteq> []" "\<forall>x\<in>set ns. digit x"
    and post: "post = [] \<or> \<not> digit (hd post)"
  shows "match (pre @ jstr ''U'' @ ds @ jstr ''(x)'' @ wsa @ op @ wsb @ ns @ post) re_cmp
     = Some [(Idx 3, ns), (Idx 2, op), (Idx 1, ds)]"
proof -
  let ?R5 = "Seq (Star (Cls isWhite)) (Grp (Idx 3) (Plus (Cls digit)))"
  let ?OP = "Alt (Seq (Cls (\<lambda>c. c = 60 \<or> c = 62)) (Opt (Chr 61))) (Alt (Chr 8805) (Chr 8804))"
  let ?R4 = "Seq (Grp (Idx 2) ?OP) ?R5"
  let ?R3 = "Seq (Star (Cls isWhite)) ?R4"
  let ?R2 = "Seq (lit ''(x)'') ?R3"
  let ?R1 = "Seq (Grp (Idx 1) (Plus (Cls digit))) ?R2"
  have hdns: "\<not> isWhite (hd (ns @ post))"
    using ns digit_not_white by (cases ns) auto
  have s5: "\<exists>q tl. ms ?R5 (p, wsb @ ns @ post, cs) = (q, post, (Idx 3, ns) # cs) # tl" for p cs
  proof -
    obtain tl where A: "ms (Grp (Idx 3) (Plus (Cls digit))) (p + length wsb, ns @ post, cs)
        = (p + length wsb + length ns, post, (Idx 3, ns) # cs) # tl"
      using ms_Grp_Plus_greedy [OF ns post, of "Idx 3" "p + length wsb" cs] by auto
    show ?thesis
      using ms_Seq_Star_greedy [OF wsb disjI2 [OF hdns] A] by - (erule exE, (rule exI)+, assumption)
  qed
  have hd61: "wsb @ ns @ post = [] \<or> hd (wsb @ ns @ post) \<noteq> 61"
  proof (cases wsb)
    case Nil
    then show ?thesis using ns by (cases ns) (auto simp: digit_def)
  next
    case (Cons w ws)
    then show ?thesis using wsb by (auto simp: isWhite_def)
  qed
  have s4: "\<exists>q tl. ms ?R4 (p, op @ wsb @ ns @ post, cs) = (q, post, (Idx 3, ns) # (Idx 2, op) # cs) # tl"
    for p cs
  proof -
    obtain tl where o: "ms ?OP (p, op @ wsb @ ns @ post, cs) = (p + length op, wsb @ ns @ post, cs) # tl"
      using ms_op [OF op hd61] by blast
    obtain q tl2 where B: "ms ?R5 (p + length op, wsb @ ns @ post, (Idx 2, op) # cs)
        = (q, post, (Idx 3, ns) # (Idx 2, op) # cs) # tl2"
      using s5 [of "p + length op" "(Idx 2, op) # cs"] by (elim exE)
    have B': "ms ?R5 (p + length op, wsb @ ns @ post,
          (Idx 2, take (p + length op - p) (op @ wsb @ ns @ post)) # cs)
        = (q, post, (Idx 3, ns) # (Idx 2, op) # cs) # tl2"
      using B by simp
    show ?thesis
      using ms_Seq_Grp_hd [OF o B'] by - (erule exE, (rule exI)+, assumption)
  qed
  have s3: "\<exists>q tl. ms ?R3 (p, wsa @ op @ wsb @ ns @ post, cs)
      = (q, post, (Idx 3, ns) # (Idx 2, op) # cs) # tl" for p cs
  proof -
    obtain q tl where C: "ms ?R4 (p + length wsa, op @ wsb @ ns @ post, cs)
        = (q, post, (Idx 3, ns) # (Idx 2, op) # cs) # tl"
      using s4 [of "p + length wsa" cs] by (elim exE)
    show ?thesis
      using ms_Seq_Star_greedy [OF wsa disjI2 [OF op_not_white [OF op]] C]
      by - (erule exE, (rule exI)+, assumption)
  qed
  have s2: "\<exists>q tl. ms ?R2 (p, jstr ''(x)'' @ wsa @ op @ wsb @ ns @ post, cs)
      = (q, post, (Idx 3, ns) # (Idx 2, op) # cs) # tl" for p cs
    unfolding ms_Seq_lit by (rule s3)
  have nd: "jstr ''(x)'' @ wsa @ op @ wsb @ ns @ post = []
        \<or> \<not> digit (hd (jstr ''(x)'' @ wsa @ op @ wsb @ ns @ post))"
    by (simp add: jstr_simps digit_def)
  have s1: "\<exists>q tl. ms ?R1 (p, ds @ jstr ''(x)'' @ wsa @ op @ wsb @ ns @ post, cs)
      = (q, post, (Idx 3, ns) # (Idx 2, op) # (Idx 1, ds) # cs) # tl" for p cs
  proof -
    obtain q tl where D: "ms ?R2 (p + length ds, jstr ''(x)'' @ wsa @ op @ wsb @ ns @ post, (Idx 1, ds) # cs)
        = (q, post, (Idx 3, ns) # (Idx 2, op) # (Idx 1, ds) # cs) # tl"
      using s2 [of "p + length ds" "(Idx 1, ds) # cs"] by (elim exE)
    show ?thesis
      using ms_Seq_Grp_Plus_greedy [OF ds nd D] by - (erule exE, (rule exI)+, assumption)
  qed
  let ?t = "ds @ jstr ''(x)'' @ wsa @ op @ wsb @ ns @ post"
  obtain q tl where "ms ?R1 (Suc (length pre), ?t, [])
      = (q, post, [(Idx 3, ns), (Idx 2, op), (Idx 1, ds)]) # tl"
    using s1 [of "Suc (length pre)" "[]"] by (elim exE)
  then have "ms re_cmp (length pre, 85 # ?t, [])
      = (q, post, [(Idx 3, ns), (Idx 2, op), (Idx 1, ds)]) # tl"
    unfolding re_cmp_def by (simp only: ms_Seq_Chr)
  then have "search re_cmp (0 + length pre) (85 # ?t) = Some (q, post, [(Idx 3, ns), (Idx 2, op), (Idx 1, ds)])"
    by (simp add: search_here)
  then have "search re_cmp 0 (pre @ 85 # ?t) = Some (q, post, [(Idx 3, ns), (Idx 2, op), (Idx 1, ds)])"
    unfolding search_re_cmp_skip [OF pre] .
  moreover have "pre @ jstr ''U'' @ ?t = pre @ 85 # ?t"
    by (simp add: jstr_simps)
  ultimately show ?thesis
    by (simp add: match_def)
qed

lemma match_re_mono_None_parts:
  assumes "109 \<notin> set pre" "77 \<notin> set pre" "109 \<notin> set post" "77 \<notin> set post"
    "\<forall>x\<in>set ds. digit x" "\<forall>x\<in>set wsa. isWhite x" "\<forall>x\<in>set wsb. isWhite x"
    "op \<in> cmpOps" "\<forall>x\<in>set ns. digit x"
  shows "109 \<notin> set (pre @ jstr ''U'' @ ds @ jstr ''(x)'' @ wsa @ op @ wsb @ ns @ post)
       \<and> 77 \<notin> set (pre @ jstr ''U'' @ ds @ jstr ''(x)'' @ wsa @ op @ wsb @ ns @ post)"
proof -
  have d: "\<not> digit 109" "\<not> digit 77" by (simp_all add: digit_def)
  have w: "\<not> isWhite 109" "\<not> isWhite 77" by (simp_all add: isWhite_def)
  have o: "109 \<notin> set op \<and> 77 \<notin> set op" using assms(8) by (auto simp: cmpOps_def jstr_simps)
  have "109 \<notin> set ds" "77 \<notin> set ds" "109 \<notin> set ns" "77 \<notin> set ns"
    using assms(5,9) d by blast+
  moreover have "109 \<notin> set wsa" "77 \<notin> set wsa" "109 \<notin> set wsb" "77 \<notin> set wsb"
    using assms(6,7) w by blast+
  ultimately show ?thesis using o assms(1-4) by (simp add: jstr_simps)
qed

lemma cmpItems_all:
  "cmpItems strNum fld op t items =
     (\<forall>it\<in>set items. field it fld \<noteq> VUndefined \<longrightarrow>
        (\<exists>v. Number strNum (field it fld) = Some v \<and> cmpHolds op v t))"
  by (induction items) (auto split: option.splits)

lemma monoItems_all:
  "monoItems fld allowed items =
     (\<forall>it\<in>set items. field it fld \<noteq> VUndefined \<longrightarrow> String (field it fld) \<in> set allowed)"
  by (induction items) auto

lemma cmpItems_filter:
  "cmpItems strNum fld op t (filter (\<lambda>it. field it fld \<noteq> VUndefined) items) =
     cmpItems strNum fld op t items"
  by (induction items) (auto split: option.splits)

lemma monoItems_filter:
  "monoItems fld allowed (filter (\<lambda>it. field it fld \<noteq> VUndefined) items) =
     monoItems fld allowed items"
  by (induction items) auto

lemma scan_filter_list:
  "map snd (filter (\<lambda>(k, v). S k) (filter (\<lambda>(k, it). Q it) xs))
     = filter Q (map snd (filter (\<lambda>(k, v). S k) xs))"
  by (induction xs) auto

lemma kvScan_filter:
  "kvScan (rt\<lparr>kvStore := filter (\<lambda>(k, it). Q it) (kvStore rt)\<rparr>) pre = filter Q (kvScan rt pre)"
  using scan_filter_list [of "\<lambda>k. startsWith k pre" Q "kvStore rt"]
  by (simp add: kvScan_def del: filter_filter)

lemma ms_re_mono_Nil:
  "s = [] \<or> (hd s \<noteq> 109 \<and> hd s \<noteq> 77) \<Longrightarrow> ms re_mono (p, s, cs) = []"
  by (cases s) (auto simp: re_mono_def ci_def toLowerCase_def)

lemma search_re_mono:
  "109 \<notin> set s \<Longrightarrow> 77 \<notin> set s \<Longrightarrow> search re_mono p s = None"
proof (induction s arbitrary: p)
  case Nil
  then show ?case by (simp add: ms_re_mono_Nil)
next
  case (Cons x xs)
  then show ?case by (simp add: ms_re_mono_Nil)
qed

lemma match_re_mono_None: "109 \<notin> set s \<Longrightarrow> 77 \<notin> set s \<Longrightarrow> match s re_mono = None"
  by (simp add: match_def search_re_mono)

lemma checkCmp_Inr: "scanPrefix a = Inr pre \<Longrightarrow> \<exists>b. checkCmp strNum a rt prop = Inr b"
  by (auto simp: checkCmp_def Let_def split: option.splits)

lemma checkMono_Inr: "scanPrefix a = Inr pre \<Longrightarrow> \<exists>b. checkMono a rt prop = Inr b"
  by (auto simp: checkMono_def Let_def split: option.splits)

lemma checkProps_all:
  assumes "scanPrefix a = Inr pre"
  shows "checkProps strNum a rt ps =
     Inr (\<forall>prop\<in>set ps. checkCmp strNum a rt prop = Inr True \<and> checkMono a rt prop = Inr True)"
proof (induction ps)
  case Nil
  show ?case by simp
next
  case (Cons p ps)
  obtain b1 where b1: "checkCmp strNum a rt p = Inr b1"
    using checkCmp_Inr [OF assms] by blast
  obtain b2 where b2: "checkMono a rt p = Inr b2"
    using checkMono_Inr [OF assms] by blast
  show ?case using Cons.IH by (simp add: b1 b2)
qed

lemma checkCmp_scan:
  "scanPrefix a = Inr pre \<Longrightarrow> match prop re_cmp = Some m \<Longrightarrow>
   checkCmp strNum a rt prop =
     Inr (cmpItems strNum (jstr ''U'' @ grp m 1) (normaliseOp (grp m 2))
            (parseInt (grp m 3)) (kvScan rt pre))"
  by (simp add: checkCmp_def Let_def)

lemma checkMono_scan:
  "scanPrefix a = Inr pre \<Longrightarrow> match prop re_mono = Some m \<Longrightarrow>
   checkMono a rt prop =
     Inr (monoItems (grp m 1)
            (case enums a of
               None \<Rightarrow> []
             | Some es \<Rightarrow> (case map_of es (jstr ''E'' @ grp m 2) of Some vs \<Rightarrow> vs | None \<Rightarrow> []))
            (kvScan rt pre))"
  by (simp add: checkMono_def Let_def)

section \<open>The budget tracker (claim C1)\<close>

text \<open>
  What holds of the budget tracker for every route and every request that its pipeline
  answers: the latency is appended to the history of the route, and a violation is
  reported for a budget if and only if the value read from the sorted history exceeds
  the threshold.
\<close>

lemma budgetWarnings_iff:
  "BudgetViolation m p q v t \<in> set (budgetWarnings m p lat bs) \<longleftrightarrow>
     (\<exists>b\<in>set bs. percentile b = q \<and> threshold b = t \<and> pVal b lat = Some v \<and> int t < v)"
  by (induction bs) (auto split: option.splits)

lemma handle_go_appends:
  assumes "\<forall>q\<in>set pre. method q \<noteq> req_method rq \<or> match (pathname rq) (regex q) = None"
    and "method r = req_method rq" and "match (pathname rq) (regex r) = Some m"
    and "executePipeline (segments r)
           \<lparr>runtime = rt, pathVars = groups m, searchParams = query rq\<rparr> = Inr v"
  shows "snd (snd (handle_go strNum a rt d rq before (pre @ r # post)))
       = before @ pre @ r\<lparr>latencies := latencies r @ [d]\<rparr> # post
     \<and> set (budgetWarnings (req_method rq) (path r) (latencies r @ [d]) (budgets r))
       \<subseteq> set (fst (snd (handle_go strNum a rt d rq before (pre @ r # post))))"
  using assms(1)
proof (induction pre arbitrary: before)
  case Nil
  show ?case using assms(2,3,4)
    by (cases "checkProperties strNum a rt") (auto simp: Let_def)
next
  case (Cons q pre)
  have q: "method q \<noteq> req_method rq \<or> match (pathname rq) (regex q) = None"
    using Cons.prems by simp
  have "\<forall>q\<in>set pre. method q \<noteq> req_method rq \<or> match (pathname rq) (regex q) = None"
    using Cons.prems by simp
  from Cons.IH [OF this, of "before @ [q]"] q show ?case
    by auto
qed

lemma floor_rat_numeral: "\<lfloor>numeral a / numeral b :: rat\<rfloor> = numeral a div numeral b"
  by (metis floor_divide_of_int_eq of_int_numeral)

lemma ceiling_rat_numeral: "\<lceil>numeral a / numeral b :: rat\<rceil> = - ((- numeral a) div numeral b)"
  unfolding ceiling_def
  by (metis divide_minus_left floor_divide_of_int_eq of_int_neg_numeral of_int_numeral)

lemmas fl_eval = fl_def ilog2_def pow2_def roundHalfEven_def bitlen.simps Let_def
  floor_rat_numeral ceiling_rat_numeral

lemma fl_7_100: "fl (7 / 100) = 1261007895663739 / 18014398509481984"
  by (simp add: fl_eval)

text \<open>
  The rounding on values whose doubles are known: one tenth, a small integer, which is
  its own double, and two ties above \<open>2^53\<close>, which go to the even mantissa.
\<close>

lemma fl_tenth: "fl (1 / 10) = 3602879701896397 / 36028797018963968"
  by (simp add: fl_eval)

lemma fl_integer: "fl 100 = 100"
  by (simp add: fl_eval)

lemma fl_tie: "fl 9007199254740993 = 9007199254740992 \<and> fl 9007199254740995 = 9007199254740996"
  by (simp add: fl_eval)

lemma parseBudget_p7: "parseBudget (jstr ''!p7<7ms'') = Some \<lparr>percentile = 7, threshold = 7\<rparr>"
  by (simp add: parseBudget_def re_budget_def str_eval re_eval)

lemma percentileIndex_7_100: "percentileIndex 7 100 = 7"
  by (simp add: percentileIndex_def fl_eval)

lemma percentileIndex_90_5: "percentileIndex 90 5 = 4"
  by (simp add: percentileIndex_def fl_eval)

lemma sort_upt: "sort (map int [a..<b]) = map int [a..<b]"
  by (rule sorted_sort_id) (simp add: sorted_map)

lemma lat_100: "ex_history @ [100] = map int [1..<101]"
proof -
  have "[1..<101] = [1..<100] @ [100]"
    using upt_Suc_append [of 1 100] by simp
  then show ?thesis by (simp add: ex_history_def)
qed

lemma pVal_7: "pVal \<lparr>percentile = 7, threshold = 7\<rparr> (ex_history @ [100]) = Some 8"
  unfolding lat_100
  by (simp add: pVal_def sort_upt percentileIndex_7_100 del: upt_rec_numeral)

lemma spec_example_p90:
  "pVal \<lparr>percentile = 90, threshold = 45\<rparr> [10, 20, 30, 40, 50] = Some 50
   \<and> budgetWarnings (jstr ''GET'') (jstr ''/j'') [10, 20, 30, 40, 50] [\<lparr>percentile = 90, threshold = 45\<rparr>]
     = [BudgetViolation (jstr ''GET'') (jstr ''/j'') 90 50 45]"
proof -
  have l: "length (sort [10, 20, 30, 40, 50 :: int]) = 5" by simp
  have "pVal \<lparr>percentile = 90, threshold = 45\<rparr> [10, 20, 30, 40, 50] = Some 50"
    unfolding pVal_def Let_def l by (simp add: percentileIndex_90_5)
  then show ?thesis by simp
qed

text \<open>
  Claim C1.  The claim takes the value at the index \<open>ceil(p/100 * n) - 1\<close> of the sorted
  history, the nearest rank.  The source computes this index in doubles, and the two
  roundings of \<open>(p / 100) * n\<close> can carry an exact integer rank to the next double above
  it: for \<open>p = 7\<close> and a history of 100 latencies the rank is 7 and the index 6, but
  \<open>(7 / 100) * 100\<close> is \<open>7.000000000000001\<close> in doubles and the source reads index 7.
  With the latencies 1 to 100 and the budget \<^verbatim>\<open>p7<7ms\<close> the value at the nearest rank is
  7, which does not exceed the threshold, while the source reads 8 and reports a
  violation.  The example of the specification (\<open>p90\<close>, five latencies) is computed
  as the claim says (\<open>spec_example_p90\<close>).
\<close>

theorem percentile_rank_rounding:
  "parseBudget (jstr ''!p7<7ms'') = Some \<lparr>percentile = 7, threshold = 7\<rparr>
   \<and> map budgets (compiled ex_srv1) = [[\<lparr>percentile = 7, threshold = 7\<rparr>]]
   \<and> map latencies (compiled ex_srv1) = [map int [1..<100]]
   \<and> percentileIndex 7 100 = 7
   \<and> \<lceil>(7 :: rat) / 100 * 100\<rceil> - 1 = 6
   \<and> sort (ex_history @ [100]) ! 6 = 7
   \<and> sort (ex_history @ [100]) ! 7 = 8
   \<and> fst (snd (handle (\<lambda>s. None) ex_srv1 100
              \<lparr>req_method = jstr ''GET'', pathname = jstr ''/j'', query = []\<rparr>))
      = [BudgetViolation (jstr ''GET'') (jstr ''/j'') 7 8 7,
         Suggestion \<lparr>route = jstr ''/j'', suggestion = reducePage 100\<rparr>]"
proof -
  have s: "sort (ex_history @ [100]) ! 6 = 7" "sort (ex_history @ [100]) ! 7 = 8"
    unfolding lat_100 by (simp_all add: sort_upt del: upt_rec_numeral)
  have c: "\<lceil>(7 :: rat) / 100 * 100\<rceil> - 1 = 6" by simp
  have p: "checkProperties (\<lambda>s. None) ex_ast ex_rt = Inr True"
    by (simp add: ex_ast_def ex_rt_def ex_job1_def ex_job2_def str_eval re_eval re_scan_def
      scanPrefix_def kvScan_def checkProperties_def checkCmp_def checkMono_def field_def
      re_cmp_def re_mono_def ci_def toLowerCase_def normaliseOp_def cmpHolds_def Let_def
      objectPrototype_def parseInt_small)
  have e: "executePipeline (segments ex_route1)
      \<lparr>runtime = ex_rt, pathVars = [], searchParams = []\<rparr> = Inr (DArray [ex_job1, ex_job2])"
    by (simp add: ex_route1_def ex_rt_def executePipeline_def str_eval re_eval re_scan_def
        re_page_def kvScan_def)
  have m: "match (jstr ''/j'') (regex ex_route1) = Some []"
    by (simp add: ex_route1_def buildPathRegex_def str_eval re_eval)
  have g: "suggestOptimizations ex_ast
      [ex_route1\<lparr>budgets := [\<lparr>percentile = 7, threshold = 7\<rparr>],
                 latencies := ex_history @ [100]\<rparr>]
      = [\<lparr>route = jstr ''/j'', suggestion = reducePage 100\<rparr>]"
    by (simp add: ex_route1_def str_eval re_eval re_page_def parseInt_small del: upt_rec_numeral)
  have h: "fst (snd (handle (\<lambda>s. None) ex_srv1 100
              \<lparr>req_method = jstr ''GET'', pathname = jstr ''/j'', query = []\<rparr>))
      = [BudgetViolation (jstr ''GET'') (jstr ''/j'') 7 8 7,
         Suggestion \<lparr>route = jstr ''/j'', suggestion = reducePage 100\<rparr>]"
    using m e g
    by (simp add: handle_def ex_srv1_def p pVal_7 groups_def Let_def del: upt_rec_numeral)
       (simp add: ex_route1_def)
  have b: "map budgets (compiled ex_srv1) = [[\<lparr>percentile = 7, threshold = 7\<rparr>]]"
    "map latencies (compiled ex_srv1) = [map int [1..<100]]"
    by (simp_all add: ex_srv1_def ex_history_def del: upt_rec_numeral)
  show ?thesis using parseBudget_p7 b percentileIndex_7_100 c s h
    by (simp del: upt_rec_numeral)
qed

section \<open>The precondition (claim C2)\<close>

text \<open>
  Claim C2, as stated, derives the key of the item from the first path variable of the
  route.  The source reads the path variable named \<open>U1\<close>, wherever it stands in the
  path.  In the route \<^verbatim>\<open>GET /x/{U2}/{U1}\<close> the first path variable is \<open>U2\<close>: for the
  request \<^verbatim>\<open>/x/job1/zzz\<close> the item at \<^verbatim>\<open>j:job1\<close> is there and its \<open>U4\<close> is 2, one of
  the declared values, and yet the pipeline fails, since the source looks at
  \<^verbatim>\<open>j:zzz\<close>.
\<close>

theorem precondition_first_variable_counterexample:
  "map_option groups (match (jstr ''/x/job1/zzz'') (regex ex_route3))
      = Some [(jstr ''U2'', jstr ''job1''), (jstr ''U1'', jstr ''zzz'')]
   \<and> kvGet ex_rt (jstr ''j:'' @ jstr ''job1'') = Some ex_job1
   \<and> String (field ex_job1 (jstr ''U4'')) = jstr ''2''
   \<and> fst (handle (\<lambda>s. None) ex_srv3 3
        \<lparr>req_method = jstr ''GET'', pathname = jstr ''/x/job1/zzz'', query = []\<rparr>)
      = Bad (PreconditionFailed (jstr ''U4 in [2,3]''))"
  by (simp add: str_eval re_eval handle_def ex_srv3_def ex_route3_def ex_rt_def ex_job1_def
      ex_job2_def buildPathRegex_def groups_def executePipeline_def re_call_def
      evaluatePrecondition_def re_precondition_def kvGet_def field_def showNat.simps Let_def)

text \<open>
  Claim C2, amended.  For every segment \<open>req(cond)\<close> whose condition matches the
  pattern of a precondition, the item is fetched at the key \<^verbatim>\<open>j:\<close> followed by the value
  of the path variable named \<open>U1\<close> (by the text \<open>undefined\<close> when the route has no such
  variable).  If there is no item at that key, or the string form of its field is not
  among the declared values, the pipeline fails with a precondition violation and gives
  no result; otherwise it goes on with the current value unchanged.
\<close>

theorem precondition_uses_U1:
  assumes "cond \<noteq> []" and "\<forall>x\<in>set cond. dot x" and "match cond re_precondition = Some m"
  shows "exec_segments ((jstr ''req('' @ cond @ jstr '')'') # segs) c data =
     (case kvGet (runtime c)
             (jstr ''j:'' @ (case map_of (pathVars c) (jstr ''U1'') of
                               Some v \<Rightarrow> v
                             | None \<Rightarrow> jstr ''undefined'')) of
        None \<Rightarrow> Inl (PreconditionFailed cond)
      | Some it \<Rightarrow>
          if String (field it (grp m 1)) \<in> set (map trim (split (grp m 2) [44]))
            then exec_segments segs c data
          else Inl (PreconditionFailed cond))"
proof -
  let ?seg = "jstr ''req('' @ cond @ jstr '')''"
  have seg: "?seg = jstr ''req'' @ 40 # cond @ [41]"
    by (simp add: jstr_simps)
  have m: "match ?seg (re_call ''req'') = Some [(Idx 1, cond)]"
    unfolding seg by (rule match_call [OF assms(1,2)])
  have sw: "\<not> startsWith ?seg (jstr ''kv.scan'')" "\<not> startsWith ?seg (jstr ''kv.get'')"
    "\<not> startsWith ?seg (jstr ''filter'')" "\<not> startsWith ?seg (jstr ''page'')"
    "startsWith ?seg (jstr ''req'')"
    by (simp_all add: jstr_simps startsWith_Cons)
  show ?thesis
    by (simp add: sw m grp_def evaluatePrecondition_def assms(3) Let_def
        split: option.splits del: startsWith_append)
qed

theorem precondition_uses_U1_witness:
  "exec_segments [jstr ''req(U4 in [2,3])'']
      \<lparr>runtime = ex_rt, pathVars = [(jstr ''U1'', jstr ''job1'')], searchParams = []\<rparr> DUndefined
     = Inr DUndefined
   \<and> exec_segments [jstr ''req(U4 in [2,3])'']
      \<lparr>runtime = ex_rt, pathVars = [(jstr ''U1'', jstr ''job2'')], searchParams = []\<rparr> DUndefined
     = Inl (PreconditionFailed (jstr ''U4 in [2,3]''))
   \<and> exec_segments [jstr ''req(U4 in [2,3])'']
      \<lparr>runtime = ex_rt, pathVars = [(jstr ''U1'', jstr ''job9'')], searchParams = []\<rparr> DUndefined
     = Inl (PreconditionFailed (jstr ''U4 in [2,3]''))"
proof -
  have m: "match (jstr ''U4 in [2,3]'') re_precondition
      = Some [(Idx 2, jstr ''2,3''), (Idx 1, jstr ''U4'')]"
    by (simp add: str_eval re_eval re_precondition_def)
  have d: "jstr ''U4 in [2,3]'' \<noteq> []" "\<forall>x\<in>set (jstr ''U4 in [2,3]''). dot x"
    by (simp_all add: jstr_simps dot_def)
  show ?thesis
    using
      precondition_uses_U1 [OF d m, of "[]"
        "\<lparr>runtime = ex_rt, pathVars = [(jstr ''U1'', jstr ''job1'')], searchParams = []\<rparr>" DUndefined]
      precondition_uses_U1 [OF d m, of "[]"
        "\<lparr>runtime = ex_rt, pathVars = [(jstr ''U1'', jstr ''job2'')], searchParams = []\<rparr>" DUndefined]
      precondition_uses_U1 [OF d m, of "[]"
        "\<lparr>runtime = ex_rt, pathVars = [(jstr ''U1'', jstr ''job9'')], searchParams = []\<rparr>" DUndefined]
    by (simp add: str_eval grp_def kvGet_def field_def ex_rt_def ex_job1_def ex_job2_def
        showNat.simps)
qed

section \<open>The filter on a query parameter (claim C3)\<close>

lemma not_white_dot: "\<not> isWhite x \<Longrightarrow> dot x"
  by (auto simp: isWhite_def dot_def)

text \<open>
  Claim C3.  For a filter \<open>field in ?q.name\<close>, with a field and a name free of white
  space, an item is kept if and only if the query has no parameter \<open>name\<close> or one of
  the values of that parameter is the string form of the field of the item; applied to
  an array, the segment \<open>filter(field in ?q.name)\<close> keeps exactly these items, in
  their order.  The witness is the example of the specification: of the items A with
  status 1 and B with status 2, a query without \<open>s\<close> keeps both and \<open>s=2\<close> keeps B.
\<close>

theorem filter_in_query:
  assumes "\<forall>x\<in>set f. \<not> isWhite x" and "\<forall>x\<in>set n. \<not> isWhite x"
  shows "evaluateFilter (f @ jstr '' in ?q.'' @ n) it c =
       Inr (getAll (searchParams c) n = []
            \<or> String (field it f) \<in> set (getAll (searchParams c) n))
     \<and> exec_segments ((jstr ''filter('' @ f @ jstr '' in ?q.'' @ n @ jstr '')'') # segs) c
         (DArray items) =
       exec_segments segs c
         (DArray (filter (\<lambda>it. getAll (searchParams c) n = []
                               \<or> String (field it f) \<in> set (getAll (searchParams c) n)) items))"
proof -
  let ?cond = "f @ jstr '' in ?q.'' @ n"
  let ?seg = "jstr ''filter('' @ f @ jstr '' in ?q.'' @ n @ jstr '')''"
  have seg: "?seg = jstr ''filter'' @ 40 # ?cond @ [41]"
    by (simp add: jstr_simps)
  have ne: "?cond \<noteq> []" by (simp add: jstr_simps)
  have dots: "\<forall>x\<in>set ?cond. dot x"
    using assms not_white_dot by (auto simp: jstr_simps dot_def)
  have m: "match ?seg (re_call ''filter'') = Some [(Idx 1, ?cond)]"
    unfolding seg by (rule match_call [OF ne dots])
  have sw: "\<not> startsWith ?seg (jstr ''kv.scan'')" "\<not> startsWith ?seg (jstr ''kv.get'')"
    "startsWith ?seg (jstr ''filter'')"
    by (simp_all add: jstr_simps startsWith_Cons)
  show ?thesis
    by (simp add: evaluateFilter_in [OF assms] filter_items_in [OF assms] sw m grp_def
        del: startsWith_append)
qed

theorem filter_in_query_witness:
  "exec_segments [jstr ''filter(status in ?q.s)'']
      \<lparr>runtime = ex_rt, pathVars = [], searchParams = []\<rparr> (DArray [ex_itemA, ex_itemB])
     = Inr (DArray [ex_itemA, ex_itemB])
   \<and> exec_segments [jstr ''filter(status in ?q.s)'']
      \<lparr>runtime = ex_rt, pathVars = [], searchParams = [(jstr ''s'', jstr ''2'')]\<rparr>
      (DArray [ex_itemA, ex_itemB])
     = Inr (DArray [ex_itemB])"
  using
    filter_in_query [of "jstr ''status''" "jstr ''s''" ex_itemA
      "\<lparr>runtime = ex_rt, pathVars = [], searchParams = []\<rparr>" "[]" "[ex_itemA, ex_itemB]"]
    filter_in_query [of "jstr ''status''" "jstr ''s''" ex_itemA
      "\<lparr>runtime = ex_rt, pathVars = [], searchParams = [(jstr ''s'', jstr ''2'')]\<rparr>" "[]"
      "[ex_itemA, ex_itemB]"]
  by (simp add: jstr_simps isWhite_def getAll_def field_def ex_itemA_def ex_itemB_def
      showNat.simps)

section \<open>The prefix of the property checker's scan (claim C4)\<close>

text \<open>
  Claim C4, as stated, takes the prefix from the first \<open>kv.scan\<close> segment of the first
  route.  The source looks only at the beginning of the pipeline of the first route:
  in \<^verbatim>\<open>req(U4 in [2,3]) | kv.scan("k:")\<close> the first (and only) scan segment has the prefix
  \<^verbatim>\<open>k:\<close>, but the pipeline does not begin with \<open>kv.scan\<close>, and the checker scans the
  default \<^verbatim>\<open>j:\<close>; so it does not see the item under \<^verbatim>\<open>k:\<close> that violates the property.
\<close>

theorem scan_prefix_later_stage_counterexample:
  "routes ex_ast4 = Some [(jstr ''R1'', ex_spec4)]
   \<and> parsePipeline (routePipeline ex_spec4) = [jstr ''req(U4 in [2,3])'', jstr ''kv.scan(\"k:\")'']
   \<and> match (jstr ''kv.scan(\"k:\")'') re_scan = Some [(Idx 1, jstr ''k:'')]
   \<and> scanPrefix ex_ast4 = Inr (jstr ''j:'')
   \<and> kvScan ex_rt4 (jstr ''k:'') = [[(jstr ''U3'', VNumber (- 1))]]
   \<and> checkProperties (\<lambda>s. None) ex_ast4 ex_rt4 = Inr True"
  by (simp add: ex_ast4_def ex_spec4_def ex_rt4_def routePipeline_def parsePipeline_def str_eval
      re_eval re_scan_def scanPrefix_def kvScan_def checkProperties_def checkCmp_def checkMono_def
      re_cmp_def re_mono_def ci_def toLowerCase_def normaliseOp_def Let_def field_def
      objectPrototype_def parseInt_small)

text \<open>
  Claim C4, amended.  For every property of a supported shape the items checked are
  those of one scan, whose prefix comes from the pipeline of the first declared route:
  if the pipeline does not begin with \<open>kv.scan\<close> (its first stage is not a scan), the
  prefix is the default \<^verbatim>\<open>j:\<close>; if it begins with \<^verbatim>\<open>kv.scan("P")\<close> and the two characters
  \<^verbatim>\<open>")\<close> do not occur later in the pipeline, the prefix is \<open>P\<close>.
\<close>

theorem scan_prefix_from_first_stage:
  assumes "routes a = Some ((k, spec) # others)"
  shows "(\<not> startsWith (routePipeline spec) (jstr ''kv.scan'') \<longrightarrow> scanPrefix a = Inr (jstr ''j:''))
     \<and> (routePipeline spec = jstr ''kv.scan(\"'' @ P @ jstr ''\")'' @ rest
          \<and> (\<forall>x\<in>set P. dot x) \<and> \<not> includes_str rest (jstr ''\")'')
        \<longrightarrow> scanPrefix a = Inr P)
     \<and> (scanPrefix a = Inr pre \<and> match prop re_cmp = Some m
        \<longrightarrow> checkCmp strNum a rt prop =
              Inr (cmpItems strNum (jstr ''U'' @ grp m 1) (normaliseOp (grp m 2))
                     (parseInt (grp m 3)) (kvScan rt pre)))
     \<and> (scanPrefix a = Inr pre \<and> match prop re_mono = Some m'
        \<longrightarrow> checkMono a rt prop =
              Inr (monoItems (grp m' 1)
                     (case enums a of
                        None \<Rightarrow> []
                      | Some es \<Rightarrow>
                          (case map_of es (jstr ''E'' @ grp m' 2) of Some vs \<Rightarrow> vs | None \<Rightarrow> []))
                     (kvScan rt pre)))"
proof -
  note sp = scanPrefix_routePipeline [OF assms]
  have 1: "\<not> startsWith (routePipeline spec) (jstr ''kv.scan'') \<longrightarrow> scanPrefix a = Inr (jstr ''j:'')"
    by (simp add: sp)
  have 2: "routePipeline spec = jstr ''kv.scan(\"'' @ P @ jstr ''\")'' @ rest
          \<and> (\<forall>x\<in>set P. dot x) \<and> \<not> includes_str rest (jstr ''\")'')
        \<longrightarrow> scanPrefix a = Inr P"
  proof (intro impI, elim conjE)
    assume p: "routePipeline spec = jstr ''kv.scan(\"'' @ P @ jstr ''\")'' @ rest"
      and d: "\<forall>x\<in>set P. dot x" and r: "\<not> includes_str rest (jstr ''\")'')"
    have sw: "startsWith (jstr ''kv.scan(\"'' @ P @ jstr ''\")'' @ rest) (jstr ''kv.scan'')"
      by (simp add: jstr_simps startsWith_Cons)
    have ne: "jstr ''kv.scan(\"'' @ P @ jstr ''\")'' @ rest \<noteq> []"
      by (simp add: jstr_simps)
    show "scanPrefix a = Inr P"
      using sw ne unfolding sp p by (simp add: match_scan [OF d r] grp_def)
  qed
  show ?thesis
    using 1 2 checkCmp_scan [of a pre "prop" m strNum rt] checkMono_scan [of a pre "prop" m' rt]
    by blast
qed

theorem scan_prefix_from_first_stage_witness:
  "scanPrefix ex_astK = Inr (jstr ''k:'') \<and> scanPrefix ex_ast4 = Inr (jstr ''j:'')"
  using
    scan_prefix_from_first_stage [where a = ex_astK and k = "jstr ''R1''"
      and spec = "jstr ''GET /k -> [M1] :: kv.scan(\"k:\") | page(10)''" and others = "[]"
      and P = "jstr ''k:''" and rest = "jstr '' | page(10)''"]
    scan_prefix_from_first_stage [where a = ex_ast4 and k = "jstr ''R1''"
      and spec = ex_spec4 and others = "[]"]
  by (simp add: ex_astK_def ex_ast4_def ex_spec4_def routePipeline_def str_eval)

section \<open>Errors of compilation (claim C5)\<close>
















lemma run_eval:
  "run ex_caps ex_ast5 ex_rt = Inl (UnknownCapability (jstr ''db.drop''))"
  "run ex_caps ex_ast5b ex_rt = Inl (InvalidPathPart (jstr ''get /z''))"
  "run ex_caps ex_ast ex_rt = Inr ex_srv"
  "run ex_caps ex_ast5c ex_rt = Inr ex_srv5c"
  "run ex_caps ex_ast5d ex_rt = Inr ex_srv5d"
  by (simp_all add: run_def ex_ast5_def ex_ast5b_def ex_ast_def ex_ast5c_def ex_ast5d_def
      ex_srv_def ex_srv5c_def ex_srv5d_def ex_route1_def ex_route2_def
      compileRoute_def routePathPart_def routePipeline_def parsePathPart_def
      parsePipeline_def parseBudget_def re_budget_def re_pathPart_def re_capability_def
      capChar_def str_eval re_eval ex_caps_def capability_def objectPrototype_def)

text \<open>
  A name that every object inherits is found in the dictionary whatever the dictionary
  holds, since the lookup follows the prototype: the stage \<^verbatim>\<open>toString("x")\<close> passes the
  compiler and fails when a request reaches it.
\<close>

lemma inherited_name_compiles:
  "map_of ex_caps (jstr ''toString'') = None
   \<and> capability ex_caps (jstr ''toString'')
   \<and> run ex_caps ex_ast5d ex_rt = Inr ex_srv5d
   \<and> fst (handle (\<lambda>s. None) ex_srv5d 3
        \<lparr>req_method = jstr ''GET'', pathname = jstr ''/z'', query = []\<rparr>)
      = Bad (UnsupportedSegment (jstr ''toString(\"x\")''))"
  by (simp add: run_eval)
     (simp add: ex_caps_def capability_def objectPrototype_def handle_def ex_srv5d_def
        buildPathRegex_def executePipeline_def str_eval re_eval)




section \<open>Numeric properties (claim C6)\<close>

lemma cmpHolds_ops:
  "op \<in> cmpOps \<Longrightarrow>
   cmpHolds (normaliseOp op) v t =
     (if op = jstr ''>'' then t < v
      else if op = jstr ''<'' then v < t
      else if op = jstr ''>='' \<or> op = [8805] then t \<le> v
      else v \<le> t)"
  by (auto simp: cmpOps_def normaliseOp_def cmpHolds_def jstr_simps)

text \<open>
  Claim C6, as stated, has the checker answer false whenever the field of a scanned item
  is not numeric, and true only if the field of every scanned item satisfies the
  comparison.  The source skips an item that does not have the field: the item
  \<open>ex_job3\<close> has no \<open>U3\<close> (it reads as \<open>undefined\<close>, which is no number), and the
  property \<^verbatim>\<open>U3(x) >= 0\<close> is found satisfied.
\<close>

theorem numeric_property_absent_field_counterexample:
  "field ex_job3 (jstr ''U3'') = VUndefined
   \<and> Number (\<lambda>s. None) (field ex_job3 (jstr ''U3'')) = None
   \<and> kvScan ex_rt6 (jstr ''j:'') = [ex_job1, ex_job3]
   \<and> checkProperties (\<lambda>s. None) ex_ast ex_rt6 = Inr True"
  by (simp add: ex_ast_def ex_rt6_def ex_job1_def ex_job3_def str_eval re_eval re_scan_def
      scanPrefix_def kvScan_def checkProperties_def checkCmp_def checkMono_def field_def
      re_cmp_def re_mono_def ci_def toLowerCase_def normaliseOp_def cmpHolds_def Let_def
      objectPrototype_def parseInt_small)

text \<open>
  Claim C6, amended.  The checker answers with one boolean: the conjunction, over all
  properties, of the verdicts of the two supported shapes; a property that matches
  neither pattern is satisfied.  A numeric property is a text in which the first \<open>U\<close>
  begins \<open>Un(x) cmp N\<close>: \<open>n\<close> and \<open>N\<close> are strings of digits, \<open>cmp\<close> is one of \<^verbatim>\<open>>\<close>,
  \<^verbatim>\<open>>=\<close>, \<^verbatim>\<open><\<close>, \<^verbatim>\<open><=\<close>, U+2265 (read as \<^verbatim>\<open>>=\<close>) and U+2264 (read as \<^verbatim>\<open><=\<close>), with or
  without white space around it, and \<open>N\<close> ends where the digits end (a fraction after
  them is not read).  Its verdict is true if and only if every scanned item that has
  the field \<open>Un\<close> holds a number there that is greater than, at least, less than or at
  most \<open>N\<close>, as \<open>cmp\<close> says, where \<open>N\<close> is the number that the language reads from the
  digits (\<open>N\<close> itself below \<open>2^53\<close>); so a present field that is not a number makes it
  false, and an item without the field is passed over.  The witness runs the six
  comparators, the form with a quantifier before it, a fraction, and the example of
  the specification: \<^verbatim>\<open>U3(x) >= 0\<close> holds over non-negative items, and one negative item
  (or one non-numeric one) makes it false.
\<close>

theorem numeric_property_verdict:
  assumes "properties a = Some ps" and "scanPrefix a = Inr pre"
  shows "checkProperties strNum a rt =
       Inr (\<forall>prop\<in>set (map snd ps).
              checkCmp strNum a rt prop = Inr True \<and> checkMono a rt prop = Inr True)
     \<and> (match prop re_cmp = None \<longrightarrow> checkCmp strNum a rt prop = Inr True)
     \<and> (match prop re_mono = None \<longrightarrow> checkMono a rt prop = Inr True)
     \<and> (85 \<notin> set before \<and> ds \<noteq> [] \<and> (\<forall>x\<in>set ds. 48 \<le> x \<and> x \<le> 57)
          \<and> (\<forall>x\<in>set wsa. isWhite x) \<and> (\<forall>x\<in>set wsb. isWhite x)
          \<and> op \<in> {jstr ''>'', jstr ''>='', jstr ''<'', jstr ''<='', [8805], [8804]}
          \<and> ns \<noteq> [] \<and> (\<forall>x\<in>set ns. 48 \<le> x \<and> x \<le> 57)
          \<and> (after = [] \<or> \<not> (48 \<le> hd after \<and> hd after \<le> 57))
        \<longrightarrow> checkCmp strNum a rt (before @ jstr ''U'' @ ds @ jstr ''(x)'' @ wsa @ op @ wsb @ ns @ after) =
              Inr (\<forall>it\<in>set (kvScan rt pre).
                     field it (jstr ''U'' @ ds) \<noteq> VUndefined \<longrightarrow>
                       (\<exists>v. Number strNum (field it (jstr ''U'' @ ds)) = Some v
                            \<and> (if op = jstr ''>'' then parseInt ns < v
                               else if op = jstr ''<'' then v < parseInt ns
                               else if op = jstr ''>='' \<or> op = [8805] then parseInt ns \<le> v
                               else v \<le> parseInt ns))))
     \<and> (85 \<notin> set before \<and> ds \<noteq> [] \<and> (\<forall>x\<in>set ds. 48 \<le> x \<and> x \<le> 57)
          \<and> (\<forall>x\<in>set wsa. isWhite x) \<and> (\<forall>x\<in>set wsb. isWhite x)
          \<and> op \<in> {jstr ''>'', jstr ''>='', jstr ''<'', jstr ''<='', [8805], [8804]}
          \<and> ns \<noteq> [] \<and> (\<forall>x\<in>set ns. 48 \<le> x \<and> x \<le> 57)
          \<and> (after = [] \<or> \<not> (48 \<le> hd after \<and> hd after \<le> 57))
          \<and> 109 \<notin> set (before @ after) \<and> 77 \<notin> set (before @ after)
        \<longrightarrow> checkMono a rt (before @ jstr ''U'' @ ds @ jstr ''(x)'' @ wsa @ op @ wsb @ ns @ after) = Inr True)
     \<and> (parseDec ns < 2 ^ 53 \<longrightarrow> parseInt ns = of_nat (parseDec ns))"
proof -
  have A: "checkProperties strNum a rt =
       Inr (\<forall>prop\<in>set (map snd ps).
              checkCmp strNum a rt prop = Inr True \<and> checkMono a rt prop = Inr True)"
    by (simp add: checkProperties_def assms(1) checkProps_all [OF assms(2)])
  have B1: "match prop re_cmp = None \<longrightarrow> checkCmp strNum a rt prop = Inr True"
    by (simp add: checkCmp_def)
  have B2: "match prop re_mono = None \<longrightarrow> checkMono a rt prop = Inr True"
    by (simp add: checkMono_def)
  have dg: "(48 \<le> x \<and> x \<le> 57) = digit x" for x
    by (simp add: digit_def)
  have ops: "{jstr ''>'', jstr ''>='', jstr ''<'', jstr ''<='', [8805], [8804]} = cmpOps"
    by (simp add: cmpOps_def)
  let ?t = "before @ jstr ''U'' @ ds @ jstr ''(x)'' @ wsa @ op @ wsb @ ns @ after"
  have C: "85 \<notin> set before \<and> ds \<noteq> [] \<and> (\<forall>x\<in>set ds. 48 \<le> x \<and> x \<le> 57)
          \<and> (\<forall>x\<in>set wsa. isWhite x) \<and> (\<forall>x\<in>set wsb. isWhite x)
          \<and> op \<in> {jstr ''>'', jstr ''>='', jstr ''<'', jstr ''<='', [8805], [8804]}
          \<and> ns \<noteq> [] \<and> (\<forall>x\<in>set ns. 48 \<le> x \<and> x \<le> 57)
          \<and> (after = [] \<or> \<not> (48 \<le> hd after \<and> hd after \<le> 57))
        \<longrightarrow> checkCmp strNum a rt (before @ jstr ''U'' @ ds @ jstr ''(x)'' @ wsa @ op @ wsb @ ns @ after) =
              Inr (\<forall>it\<in>set (kvScan rt pre).
                     field it (jstr ''U'' @ ds) \<noteq> VUndefined \<longrightarrow>
                       (\<exists>v. Number strNum (field it (jstr ''U'' @ ds)) = Some v
                            \<and> (if op = jstr ''>'' then parseInt ns < v
                               else if op = jstr ''<'' then v < parseInt ns
                               else if op = jstr ''>='' \<or> op = [8805] then parseInt ns \<le> v
                               else v \<le> parseInt ns)))"
  proof (intro impI, elim conjE)
    assume h: "85 \<notin> set before" "ds \<noteq> []" "\<forall>x\<in>set ds. 48 \<le> x \<and> x \<le> 57"
      "\<forall>x\<in>set wsa. isWhite x" "\<forall>x\<in>set wsb. isWhite x"
      "op \<in> {jstr ''>'', jstr ''>='', jstr ''<'', jstr ''<='', [8805], [8804]}"
      "ns \<noteq> []" "\<forall>x\<in>set ns. 48 \<le> x \<and> x \<le> 57"
      "after = [] \<or> \<not> (48 \<le> hd after \<and> hd after \<le> 57)"
    have op: "op \<in> cmpOps" using h(6) unfolding ops .
    have m: "match ?t re_cmp = Some [(Idx 3, ns), (Idx 2, op), (Idx 1, ds)]"
      using h(1,2,3,4,5,7,8,9) op unfolding dg by (intro match_cmp)
    have "checkCmp strNum a rt ?t =
        Inr (cmpItems strNum (jstr ''U'' @ ds) (normaliseOp op) (parseInt ns) (kvScan rt pre))"
      using checkCmp_scan [OF assms(2) m, of strNum rt] by (simp add: grp_def)
    then show "checkCmp strNum a rt ?t = Inr (\<forall>it\<in>set (kvScan rt pre).
                     field it (jstr ''U'' @ ds) \<noteq> VUndefined \<longrightarrow>
                       (\<exists>v. Number strNum (field it (jstr ''U'' @ ds)) = Some v
                            \<and> (if op = jstr ''>'' then parseInt ns < v
                               else if op = jstr ''<'' then v < parseInt ns
                               else if op = jstr ''>='' \<or> op = [8805] then parseInt ns \<le> v
                               else v \<le> parseInt ns)))"
      by (simp add: cmpItems_all cmpHolds_ops [OF op])
  qed
  have D: "85 \<notin> set before \<and> ds \<noteq> [] \<and> (\<forall>x\<in>set ds. 48 \<le> x \<and> x \<le> 57)
          \<and> (\<forall>x\<in>set wsa. isWhite x) \<and> (\<forall>x\<in>set wsb. isWhite x)
          \<and> op \<in> {jstr ''>'', jstr ''>='', jstr ''<'', jstr ''<='', [8805], [8804]}
          \<and> ns \<noteq> [] \<and> (\<forall>x\<in>set ns. 48 \<le> x \<and> x \<le> 57)
          \<and> (after = [] \<or> \<not> (48 \<le> hd after \<and> hd after \<le> 57))
          \<and> 109 \<notin> set (before @ after) \<and> 77 \<notin> set (before @ after)
        \<longrightarrow> checkMono a rt (before @ jstr ''U'' @ ds @ jstr ''(x)'' @ wsa @ op @ wsb @ ns @ after) = Inr True"
  proof (intro impI, elim conjE)
    assume h: "\<forall>x\<in>set ds. 48 \<le> x \<and> x \<le> 57"
      "\<forall>x\<in>set wsa. isWhite x" "\<forall>x\<in>set wsb. isWhite x"
      "op \<in> {jstr ''>'', jstr ''>='', jstr ''<'', jstr ''<='', [8805], [8804]}"
      "\<forall>x\<in>set ns. 48 \<le> x \<and> x \<le> 57"
      "109 \<notin> set (before @ after)" "77 \<notin> set (before @ after)"
    have op: "op \<in> cmpOps" using h(4) unfolding ops .
    have "109 \<notin> set ?t \<and> 77 \<notin> set ?t"
      using h(1,2,3,5,6,7) op unfolding dg by (intro match_re_mono_None_parts) simp_all
    then have "match ?t re_mono = None"
      by (intro match_re_mono_None) simp_all
    then show "checkMono a rt ?t = Inr True"
      by (simp add: checkMono_def)
  qed
  have E: "parseDec ns < 2 ^ 53 \<longrightarrow> parseInt ns = of_nat (parseDec ns)"
    by (simp add: parseInt_small)
  show ?thesis using A B1 B2 C D E by blast
qed

theorem numeric_property_verdict_witness:
  "checkProperties (\<lambda>s. None) ex_ast ex_rt = Inr True
   \<and> checkProperties (\<lambda>s. None) ex_ast
        (kvSet ex_rt (jstr ''j:job2'') [(jstr ''U1'', VString (jstr ''job2'')), (jstr ''U3'', VNumber (- 4))])
      = Inr False
   \<and> checkProperties (\<lambda>s. None) ex_ast
        (kvSet ex_rt (jstr ''j:job2'') [(jstr ''U1'', VString (jstr ''job2'')), (jstr ''U3'', VString (jstr ''n/a''))])
      = Inr False
   \<and> map (\<lambda>it. field it (jstr ''U3'')) (kvScan ex_rt (jstr ''j:'')) = [VNumber 5, VNumber 7]
   \<and> checkCmp (\<lambda>s. None) ex_ast ex_rt (jstr ''U3(x) > 5'') = Inr False
   \<and> checkCmp (\<lambda>s. None) ex_ast ex_rt (jstr ''U3(x) >= 5'') = Inr True
   \<and> checkCmp (\<lambda>s. None) ex_ast ex_rt (jstr ''U3(x) < 7'') = Inr False
   \<and> checkCmp (\<lambda>s. None) ex_ast ex_rt (jstr ''U3(x) <= 7'') = Inr True
   \<and> checkCmp (\<lambda>s. None) ex_ast ex_rt (jstr ''U3(x)'' @ [8805] @ jstr ''5'') = Inr True
   \<and> checkCmp (\<lambda>s. None) ex_ast ex_rt (jstr ''U3(x) '' @ [8804] @ jstr '' 6'') = Inr False
   \<and> checkCmp (\<lambda>s. None) ex_ast ex_rt
        ([8704, 120, 8712] @ jstr ''M1. U3(x)'' @ [8805] @ jstr ''0'') = Inr True
   \<and> checkCmp (\<lambda>s. None) ex_ast \<lparr>kvStore = [(jstr ''j:a'', [(jstr ''U3'', VNumber 0)])]\<rparr>
        (jstr ''U3(x) >= 0.5'') = Inr True"
proof -
  have sp: "scanPrefix ex_ast = Inr (jstr ''j:'')"
    by (simp add: ex_ast_def scanPrefix_def str_eval re_eval re_scan_def)
  have ps: "properties ex_ast = Some [(jstr ''P1'', jstr ''U3(x) >= 0'')]"
    by (simp add: ex_ast_def)
  note ev = str_eval kvScan_def kvSet_def ex_rt_def ex_job1_def ex_job2_def field_def
    objectPrototype_def parseInt_small
  have a: "checkProperties (\<lambda>s. None) ex_ast ex_rt = Inr True
   \<and> checkProperties (\<lambda>s. None) ex_ast
        (kvSet ex_rt (jstr ''j:job2'') [(jstr ''U1'', VString (jstr ''job2'')), (jstr ''U3'', VNumber (- 4))])
      = Inr False
   \<and> checkProperties (\<lambda>s. None) ex_ast
        (kvSet ex_rt (jstr ''j:job2'') [(jstr ''U1'', VString (jstr ''job2'')), (jstr ''U3'', VString (jstr ''n/a''))])
      = Inr False"
    using numeric_property_verdict [OF ps sp, where strNum = "\<lambda>s. None" and ds = "jstr ''3''"
        and before = "[]" and wsa = "jstr '' ''" and op = "jstr ''>=''" and wsb = "jstr '' ''"
        and ns = "jstr ''0''" and after = "[]" and rt = ex_rt]
      numeric_property_verdict [OF ps sp, where strNum = "\<lambda>s. None" and ds = "jstr ''3''"
        and before = "[]" and wsa = "jstr '' ''" and op = "jstr ''>=''" and wsb = "jstr '' ''"
        and ns = "jstr ''0''" and after = "[]" and rt = "kvSet ex_rt (jstr ''j:job2'')
            [(jstr ''U1'', VString (jstr ''job2'')), (jstr ''U3'', VNumber (- 4))]"]
      numeric_property_verdict [OF ps sp, where strNum = "\<lambda>s. None" and ds = "jstr ''3''"
        and before = "[]" and wsa = "jstr '' ''" and op = "jstr ''>=''" and wsb = "jstr '' ''"
        and ns = "jstr ''0''" and after = "[]" and rt = "kvSet ex_rt (jstr ''j:job2'')
            [(jstr ''U1'', VString (jstr ''job2'')), (jstr ''U3'', VString (jstr ''n/a''))]"]
    by (simp add: ev)
  have f: "map (\<lambda>it. field it (jstr ''U3'')) (kvScan ex_rt (jstr ''j:'')) = [VNumber 5, VNumber 7]"
    by (simp add: ev)
  have w1: "checkCmp (\<lambda>s. None) ex_ast ex_rt (jstr ''U3(x) > 5'') = Inr False"
    using numeric_property_verdict [OF ps sp, where strNum = "\<lambda>s. None" and rt = ex_rt and before = "[]" and ds = "jstr ''3''" and wsa = "jstr '' ''"
        and op = "jstr ''>''" and wsb = "jstr '' ''" and ns = "jstr ''5''" and after = "[]",
        THEN conjunct2, THEN conjunct2, THEN conjunct2, THEN conjunct1]
    by (simp add: ev)
  have w2: "checkCmp (\<lambda>s. None) ex_ast ex_rt (jstr ''U3(x) >= 5'') = Inr True"
    using numeric_property_verdict [OF ps sp, where strNum = "\<lambda>s. None" and rt = ex_rt and before = "[]" and ds = "jstr ''3''" and wsa = "jstr '' ''"
        and op = "jstr ''>=''" and wsb = "jstr '' ''" and ns = "jstr ''5''" and after = "[]",
        THEN conjunct2, THEN conjunct2, THEN conjunct2, THEN conjunct1]
    by (simp add: ev)
  have w3: "checkCmp (\<lambda>s. None) ex_ast ex_rt (jstr ''U3(x) < 7'') = Inr False"
    using numeric_property_verdict [OF ps sp, where strNum = "\<lambda>s. None" and rt = ex_rt and before = "[]" and ds = "jstr ''3''" and wsa = "jstr '' ''"
        and op = "jstr ''<''" and wsb = "jstr '' ''" and ns = "jstr ''7''" and after = "[]",
        THEN conjunct2, THEN conjunct2, THEN conjunct2, THEN conjunct1]
    by (simp add: ev)
  have w4: "checkCmp (\<lambda>s. None) ex_ast ex_rt (jstr ''U3(x) <= 7'') = Inr True"
    using numeric_property_verdict [OF ps sp, where strNum = "\<lambda>s. None" and rt = ex_rt and before = "[]" and ds = "jstr ''3''" and wsa = "jstr '' ''"
        and op = "jstr ''<=''" and wsb = "jstr '' ''" and ns = "jstr ''7''" and after = "[]",
        THEN conjunct2, THEN conjunct2, THEN conjunct2, THEN conjunct1]
    by (simp add: ev)
  have w5: "checkCmp (\<lambda>s. None) ex_ast ex_rt (jstr ''U3(x)'' @ [8805] @ jstr ''5'') = Inr True"
    using numeric_property_verdict [OF ps sp, where strNum = "\<lambda>s. None" and rt = ex_rt and before = "[]" and ds = "jstr ''3''" and wsa = "[]"
        and op = "[8805]" and wsb = "[]" and ns = "jstr ''5''" and after = "[]",
        THEN conjunct2, THEN conjunct2, THEN conjunct2, THEN conjunct1]
    by (simp add: ev)
  have w6: "checkCmp (\<lambda>s. None) ex_ast ex_rt (jstr ''U3(x) '' @ [8804] @ jstr '' 6'') = Inr False"
    using numeric_property_verdict [OF ps sp, where strNum = "\<lambda>s. None" and rt = ex_rt and before = "[]" and ds = "jstr ''3''" and wsa = "jstr '' ''"
        and op = "[8804]" and wsb = "jstr '' ''" and ns = "jstr ''6''" and after = "[]",
        THEN conjunct2, THEN conjunct2, THEN conjunct2, THEN conjunct1]
    by (simp add: ev)
  have w7: "checkCmp (\<lambda>s. None) ex_ast ex_rt
        ([8704, 120, 8712] @ jstr ''M1. U3(x)'' @ [8805] @ jstr ''0'') = Inr True"
    using numeric_property_verdict [OF ps sp, where strNum = "\<lambda>s. None" and rt = ex_rt and before = "[8704, 120, 8712] @ jstr ''M1. ''" and ds = "jstr ''3''"
        and wsa = "[]" and op = "[8805]" and wsb = "[]" and ns = "jstr ''0''" and after = "[]",
        THEN conjunct2, THEN conjunct2, THEN conjunct2, THEN conjunct1]
    by (simp add: ev)
  have w8: "checkCmp (\<lambda>s. None) ex_ast \<lparr>kvStore = [(jstr ''j:a'', [(jstr ''U3'', VNumber 0)])]\<rparr>
        (jstr ''U3(x) >= 0.5'') = Inr True"
    using numeric_property_verdict [OF ps sp, where strNum = "\<lambda>s. None" and rt = "\<lparr>kvStore = [(jstr ''j:a'', [(jstr ''U3'', VNumber 0)])]\<rparr>"
        and before = "[]" and ds = "jstr ''3''" and wsa = "jstr '' ''"
        and op = "jstr ''>=''" and wsb = "jstr '' ''" and ns = "jstr ''0''" and after = "jstr ''.5''",
        THEN conjunct2, THEN conjunct2, THEN conjunct2, THEN conjunct1]
    by (simp add: ev)
  show ?thesis
    using a f w1 w2 w3 w4 w5 w6 w7 w8 by (intro conjI) simp_all
qed

section \<open>The optimisation advisor (claim C7)\<close>

text \<open>
  Claim C7.  The advisor judges every compiled route on its own.  A route without a
  budget gets no suggestion.  A route with a budget gets exactly one suggestion, with
  the text \<^verbatim>\<open>Add page(50) to limit results and improve latency.\<close>, when none of its
  segments begins with \<^verbatim>\<open>page(\<close>.  When its first such segment is \<^verbatim>\<open>page(N)\<close>, with \<open>N\<close>
  a string of digits (anything may follow the closing parenthesis), it gets exactly one
  suggestion if \<open>N\<close> is greater than 50, with the text
  \<^verbatim>\<open>Reduce page size from N to 50 to meet latency budget.\<close>, and none if \<open>N\<close> is at most
  50.  The size is written in the text as the language writes the number it has read: with the
  digits of \<open>N\<close> when \<open>N\<close> is below \<open>2^53\<close> and has no leading zero.  The advisor
  returns suggestions only, and the handler that calls it leaves the program and every
  compiled route as they were, the history of latencies apart.
\<close>

theorem advisor_suggestions:
  "suggestOptimizations a rs = concat (map (\<lambda>r. suggestOptimizations a [r]) rs)
   \<and> (budgets r = [] \<longrightarrow> suggestOptimizations a [r] = [])
   \<and> (budgets r \<noteq> [] \<and> (\<forall>s\<in>set (segments r). \<not> startsWith s (jstr ''page(''))
        \<longrightarrow> suggestOptimizations a [r] =
              [\<lparr>route = path r,
                suggestion = jstr ''Add page(50) to limit results and improve latency.''\<rparr>])
   \<and> (budgets r \<noteq> []
        \<and> segments r = pre @ (jstr ''page('' @ ds @ jstr '')'' @ rest) # post
        \<and> ds \<noteq> [] \<and> (\<forall>x\<in>set ds. 48 \<le> x \<and> x \<le> 57)
        \<and> (\<forall>s\<in>set pre. \<not> startsWith s (jstr ''page(''))
        \<longrightarrow> suggestOptimizations a [r] =
              (if 50 < parseDec ds
               then [\<lparr>route = path r,
                      suggestion = jstr ''Reduce page size from '' @ numberToString (parseInt ds)
                                     @ jstr '' to 50 to meet latency budget.''\<rparr>]
               else []))
   \<and> (n < 2 ^ 53 \<longrightarrow> parseDec (showNat n) = n
                       \<and> numberToString (parseInt (showNat n)) = showNat n)
   \<and> program (snd (snd (handle strNum srv d rq))) = program srv
   \<and> map (\<lambda>r. r\<lparr>latencies := []\<rparr>) (compiled (snd (snd (handle strNum srv d rq))))
       = map (\<lambda>r. r\<lparr>latencies := []\<rparr>) (compiled srv)"
proof -
  have 1: "budgets r \<noteq> [] \<and> (\<forall>s\<in>set (segments r). \<not> startsWith s (jstr ''page(''))
        \<longrightarrow> suggestOptimizations a [r] =
              [\<lparr>route = path r,
                suggestion = jstr ''Add page(50) to limit results and improve latency.''\<rparr>]"
    using suggest_no_page [of r a] by (simp add: addPage_def)
  have 2: "budgets r \<noteq> []
        \<and> segments r = pre @ (jstr ''page('' @ ds @ jstr '')'' @ rest) # post
        \<and> ds \<noteq> [] \<and> (\<forall>x\<in>set ds. 48 \<le> x \<and> x \<le> 57)
        \<and> (\<forall>s\<in>set pre. \<not> startsWith s (jstr ''page(''))
        \<longrightarrow> suggestOptimizations a [r] =
              (if 50 < parseDec ds
               then [\<lparr>route = path r,
                      suggestion = jstr ''Reduce page size from '' @ numberToString (parseInt ds)
                                     @ jstr '' to 50 to meet latency budget.''\<rparr>]
               else [])"
    using suggest_page [of r pre ds rest post a] by (simp add: reducePage_def digit_def)
  have 3: "n < 2 ^ 53 \<longrightarrow> parseDec (showNat n) = n
                       \<and> numberToString (parseInt (showNat n)) = showNat n"
    by (simp add: parseDec_showNat numberToString_parseInt)
  show ?thesis
    using suggest_concat [of a rs] suggest_no_budget [of r a] 1 2 3
      handle_static [of strNum srv d rq]
    by blast
qed

theorem advisor_suggestions_witness:
  \<open>suggestOptimizations ex_ast [ex_route1] =
      [\<lparr>route = jstr ''/j'',
        suggestion = jstr ''Reduce page size from 100 to 50 to meet latency budget.''\<rparr>]
   \<and> suggestOptimizations ex_ast [ex_route1\<lparr>segments := [jstr ''kv.scan("j:")'', jstr ''page(10)'']\<rparr>] = []
   \<and> suggestOptimizations ex_ast [ex_route1\<lparr>segments := [jstr ''kv.scan("j:")'']\<rparr>] =
      [\<lparr>route = jstr ''/j'',
        suggestion = jstr ''Add page(50) to limit results and improve latency.''\<rparr>]
   \<and> suggestOptimizations ex_ast [ex_route2] = []\<close>
proof -
  let ?scan = \<open>jstr ''kv.scan("j:")''\<close>
  let ?r10 = "ex_route1\<lparr>segments := [?scan, jstr ''page(10)'']\<rparr>"
  let ?r0 = "ex_route1\<lparr>segments := [?scan]\<rparr>"
  have pd: "parseDec (jstr ''100'') = 100" "parseDec (jstr ''10'') = 10"
    by (simp_all add: parseDec_def jstr_simps)
  have b: "budgets ex_route1 \<noteq> []" "budgets ?r10 \<noteq> []" "budgets ?r0 \<noteq> []" "budgets ex_route2 = []"
    by (simp_all add: ex_route1_def ex_route2_def)
  have p: "path ex_route1 = jstr ''/j''" "path ?r10 = jstr ''/j''" "path ?r0 = jstr ''/j''"
    by (simp_all add: ex_route1_def)
  have pre: "\<forall>s\<in>set [?scan]. \<not> startsWith s (jstr ''page('')"
    by (simp add: jstr_simps startsWith_def)
  have dg: "jstr ''100'' \<noteq> []" "\<forall>x\<in>set (jstr ''100''). 48 \<le> x \<and> x \<le> 57"
    "jstr ''10'' \<noteq> []" "\<forall>x\<in>set (jstr ''10''). 48 \<le> x \<and> x \<le> 57"
    by (simp_all add: jstr_simps)
  have s1: "segments ex_route1 = [?scan] @ (jstr ''page('' @ jstr ''100'' @ jstr '')'' @ []) # []"
    by (simp add: ex_route1_def jstr_simps)
  have s10: "segments ?r10 = [?scan] @ (jstr ''page('' @ jstr ''10'' @ jstr '')'' @ []) # []"
    by (simp add: jstr_simps)
  have s0: "\<forall>s\<in>set (segments ?r0). \<not> startsWith s (jstr ''page('')"
    by (simp add: jstr_simps startsWith_def)
  have n: "numberToString (parseInt (jstr ''100'')) = jstr ''100''"
  proof -
    have "showNat 100 = jstr ''100''" by (simp add: showNat.simps jstr_simps)
    then show ?thesis
      using advisor_suggestions [where n = 100 and rs = "[]"] by simp
  qed
  have "suggestOptimizations ex_ast [ex_route1] =
      (if 50 < parseDec (jstr ''100'')
       then [\<lparr>route = path ex_route1,
              suggestion = jstr ''Reduce page size from '' @ numberToString (parseInt (jstr ''100''))
                             @ jstr '' to 50 to meet latency budget.''\<rparr>]
       else [])"
    using advisor_suggestions [where a = ex_ast and rs = "[]" and r = ex_route1
        and pre = "[?scan]" and ds = "jstr ''100''" and rest = "[]" and post = "[]"]
      b(1) s1 dg(1,2) pre
    by blast
  then have i1: "suggestOptimizations ex_ast [ex_route1] =
      [\<lparr>route = jstr ''/j'',
        suggestion = jstr ''Reduce page size from 100 to 50 to meet latency budget.''\<rparr>]"
    unfolding pd n p by (simp add: jstr_simps)
  have "suggestOptimizations ex_ast [?r10] =
      (if 50 < parseDec (jstr ''10'')
       then [\<lparr>route = path ?r10,
              suggestion = jstr ''Reduce page size from '' @ numberToString (parseInt (jstr ''10''))
                             @ jstr '' to 50 to meet latency budget.''\<rparr>]
       else [])"
    using advisor_suggestions [where a = ex_ast and rs = "[]" and r = ?r10
        and pre = "[?scan]" and ds = "jstr ''10''" and rest = "[]" and post = "[]"]
      b(2) s10 dg(3,4) pre
    by blast
  then have i2: "suggestOptimizations ex_ast [?r10] = []"
    unfolding pd by simp
  have "suggestOptimizations ex_ast [?r0] =
      [\<lparr>route = path ?r0,
        suggestion = jstr ''Add page(50) to limit results and improve latency.''\<rparr>]"
    using advisor_suggestions [where a = ex_ast and rs = "[]" and r = ?r0] b(3) s0
    by blast
  then have i3: "suggestOptimizations ex_ast [?r0] =
      [\<lparr>route = jstr ''/j'',
        suggestion = jstr ''Add page(50) to limit results and improve latency.''\<rparr>]"
    unfolding p .
  have i4: "suggestOptimizations ex_ast [ex_route2] = []"
    using advisor_suggestions [where a = ex_ast and rs = "[]" and r = ex_route2] b(4)
    by blast
  show ?thesis
    using i1 i2 i3 i4 by (intro conjI)
qed

section \<open>The dispatcher (claim C8)\<close>

text \<open>
  Claim C8.  The answer to a request is decided by the first compiled route, in the
  order of declaration, whose method is the method of the request and whose path
  expression matches the path name: the answer is the result of the pipeline of that
  route, with status 200 (the error of the pipeline, with status 400, when the pipeline
  fails), and it is the status 404 when there is no such route.  The program has at
  least one route, as every program has whose server answers a request.
\<close>

theorem dispatch_first_match:
  assumes "routes (program srv) \<noteq> Some []"
  shows "fst (handle strNum srv d rq) =
     (case find (\<lambda>r. method r = req_method rq \<and> match (pathname rq) (regex r) \<noteq> None)
             (compiled srv) of
        None \<Rightarrow> NotFound
      | Some r \<Rightarrow>
          (case match (pathname rq) (regex r) of
             None \<Rightarrow> NotFound
           | Some m \<Rightarrow>
               (case executePipeline (segments r)
                       \<lparr>runtime = store srv, pathVars = groups m, searchParams = query rq\<rparr> of
                  Inl e \<Rightarrow> Bad e
                | Inr v \<Rightarrow> Ok v)))"
  using handle_go_find [OF assms, of strNum "store srv" d rq "[]" "compiled srv"]
  by (simp add: handle_fst)

theorem dispatch_first_match_witness:
  "routes (program ex_srv) \<noteq> Some []
   \<and> fst (handle (\<lambda>s. None) ex_srv 3
        \<lparr>req_method = jstr ''GET'', pathname = jstr ''/j/job1'', query = []\<rparr>) = Ok (DItem ex_job1)
   \<and> fst (handle (\<lambda>s. None) ex_srv 3
        \<lparr>req_method = jstr ''GET'', pathname = jstr ''/j'', query = []\<rparr>) = Ok (DArray [ex_job1, ex_job2])
   \<and> fst (handle (\<lambda>s. None) ex_srv 3
        \<lparr>req_method = jstr ''POST'', pathname = jstr ''/j'', query = []\<rparr>) = NotFound
   \<and> fst (handle (\<lambda>s. None) ex_srv 3
        \<lparr>req_method = jstr ''GET'', pathname = jstr ''/k'', query = []\<rparr>) = NotFound"
proof -
  have ne: "routes (program ex_srv) \<noteq> Some []"
    by (simp add: ex_srv_def ex_ast_def)
  show ?thesis
    using ne
      dispatch_first_match [OF ne, of "\<lambda>s. None" 3
        "\<lparr>req_method = jstr ''GET'', pathname = jstr ''/j/job1'', query = []\<rparr>"]
      dispatch_first_match [OF ne, of "\<lambda>s. None" 3
        "\<lparr>req_method = jstr ''GET'', pathname = jstr ''/j'', query = []\<rparr>"]
      dispatch_first_match [OF ne, of "\<lambda>s. None" 3
        "\<lparr>req_method = jstr ''POST'', pathname = jstr ''/j'', query = []\<rparr>"]
      dispatch_first_match [OF ne, of "\<lambda>s. None" 3
        "\<lparr>req_method = jstr ''GET'', pathname = jstr ''/k'', query = []\<rparr>"]
    by (simp add: ex_srv_def ex_route1_def ex_route2_def ex_rt_def str_eval re_eval
        buildPathRegex_def executePipeline_def re_call_def re_scan_def re_page_def
        evaluateExpression_def kvGet_def kvScan_def groups_def)
qed

section \<open>Repeated dispatch (claim C9)\<close>

lemma handle_response_cong:
  assumes "program srv' = program srv" "store srv' = store srv"
    and "map (\<lambda>r. r\<lparr>latencies := []\<rparr>) (compiled srv') = map (\<lambda>r. r\<lparr>latencies := []\<rparr>) (compiled srv)"
  shows "fst (handle strNum srv' d' rq) = fst (handle strNum srv d rq)"
  using handle_go_response [OF assms(3), of strNum "program srv" "store srv" d' rq "[]" d "[]"]
  by (simp add: handle_fst assms(1,2))

lemma foldl_handle_static:
  "program (foldl (\<lambda>s (d, q). snd (snd (handle strNum s d q))) srv ops) = program srv
   \<and> store (foldl (\<lambda>s (d, q). snd (snd (handle strNum s d q))) srv ops) = store srv
   \<and> map (\<lambda>r. r\<lparr>latencies := []\<rparr>)
        (compiled (foldl (\<lambda>s (d, q). snd (snd (handle strNum s d q))) srv ops))
       = map (\<lambda>r. r\<lparr>latencies := []\<rparr>) (compiled srv)"
proof (induction ops arbitrary: srv)
  case Nil
  show ?case by simp
next
  case (Cons op ops)
  obtain d q where op: "op = (d, q)" by (cases op)
  show ?case
    using Cons.IH [of "snd (snd (handle strNum srv d q))"] handle_static [of strNum srv d q]
    by (simp add: op)
qed

text \<open>
  Claim C9.  The answer to a request depends on the program, the store and the compiled
  routes without their histories, and no request changes any of these: no segment of a
  pipeline writes to the store, and \<open>http.post\<close> is a stub that sends nothing.  So the
  answer to a request is the same however many requests, this one or others and with
  whatever latencies, were served before it; in particular a read-only route gives the
  same answer each time.
\<close>

theorem repeated_dispatch_same_result:
  "fst (handle strNum (foldl (\<lambda>s (d, q). snd (snd (handle strNum s d q))) srv ops) d' rq)
     = fst (handle strNum srv d rq)"
  using foldl_handle_static [of strNum srv ops]
  by (intro handle_response_cong) simp_all

section \<open>Items without the field (claim C10)\<close>

lemma checkProps_False:
  "checkProps strNum a rt ps = Inr False \<Longrightarrow>
   \<exists>p\<in>set ps. checkCmp strNum a rt p = Inr False \<or> checkMono a rt p = Inr False"
proof (induction ps)
  case Nil
  then show ?case by simp
next
  case (Cons p ps)
  then show ?case
    by (cases "checkCmp strNum a rt p"; cases "checkMono a rt p") (auto split: if_splits)
qed

lemma checkCmp_False:
  assumes "checkCmp strNum a rt p = Inr False"
  shows "\<exists>m pre it. match p re_cmp = Some m \<and> scanPrefix a = Inr pre \<and> it \<in> set (kvScan rt pre)
     \<and> field it (jstr ''U'' @ grp m 1) \<noteq> VUndefined"
proof -
  obtain m where m: "match p re_cmp = Some m"
    using assms by (cases "match p re_cmp") (auto simp: checkCmp_def)
  obtain pre where pre: "scanPrefix a = Inr pre"
    using assms m by (cases "scanPrefix a") (auto simp: checkCmp_def Let_def)
  have "\<not> cmpItems strNum (jstr ''U'' @ grp m 1) (normaliseOp (grp m 2))
            (parseInt (grp m 3)) (kvScan rt pre)"
    using assms checkCmp_scan [OF pre m, of strNum rt] by simp
  then obtain it where "it \<in> set (kvScan rt pre)" "field it (jstr ''U'' @ grp m 1) \<noteq> VUndefined"
    unfolding cmpItems_all by blast
  then show ?thesis using m pre by blast
qed

lemma checkMono_False:
  assumes "checkMono a rt p = Inr False"
  shows "\<exists>m pre it. match p re_mono = Some m \<and> scanPrefix a = Inr pre \<and> it \<in> set (kvScan rt pre)
     \<and> field it (grp m 1) \<noteq> VUndefined"
proof -
  obtain m where m: "match p re_mono = Some m"
    using assms by (cases "match p re_mono") (auto simp: checkMono_def)
  obtain pre where pre: "scanPrefix a = Inr pre"
    using assms m by (cases "scanPrefix a") (auto simp: checkMono_def Let_def)
  have "\<not> monoItems (grp m 1)
            (case enums a of
               None \<Rightarrow> []
             | Some es \<Rightarrow> (case map_of es (jstr ''E'' @ grp m 2) of Some vs \<Rightarrow> vs | None \<Rightarrow> []))
            (kvScan rt pre)"
    using assms checkMono_scan [OF pre m, of rt] by simp
  then obtain it where "it \<in> set (kvScan rt pre)" "field it (grp m 1) \<noteq> VUndefined"
    unfolding monoItems_all by blast
  then show ?thesis using m pre by blast
qed

lemma checkCmp_filter:
  "match p re_cmp = Some m \<Longrightarrow>
   checkCmp strNum a
     (rt\<lparr>kvStore := filter (\<lambda>(k, it). field it (jstr ''U'' @ grp m 1) \<noteq> VUndefined) (kvStore rt)\<rparr>) p
   = checkCmp strNum a rt p"
  by (simp add: checkCmp_def Let_def kvScan_filter cmpItems_filter split: sum.splits)

lemma checkMono_filter:
  "match p re_mono = Some m \<Longrightarrow>
   checkMono a
     (rt\<lparr>kvStore := filter (\<lambda>(k, it). field it (grp m 1) \<noteq> VUndefined) (kvStore rt)\<rparr>) p
   = checkMono a rt p"
  by (simp add: checkMono_def Let_def kvScan_filter monoItems_filter split: sum.splits)

text \<open>
  Claim C10.  For both shapes of property, an item on which the field is absent is passed
  over: the loops over the items give the same verdict with and without such items, the
  verdict of a property is the same on the store from which every item without the field
  has been removed, and whenever the checker answers false there is a property of a
  supported shape and a scanned item that has the field of that property.
\<close>

theorem absent_field_never_violates:
  "cmpItems strNum fld op t (filter (\<lambda>it. field it fld \<noteq> VUndefined) items)
     = cmpItems strNum fld op t items
   \<and> monoItems fld allowed (filter (\<lambda>it. field it fld \<noteq> VUndefined) items)
     = monoItems fld allowed items
   \<and> (match ptext re_cmp = Some m \<longrightarrow>
        checkCmp strNum a
          (rt\<lparr>kvStore := filter (\<lambda>(k, it). field it (jstr ''U'' @ grp m 1) \<noteq> VUndefined)
                             (kvStore rt)\<rparr>) ptext
        = checkCmp strNum a rt ptext)
   \<and> (match ptext re_mono = Some m' \<longrightarrow>
        checkMono a
          (rt\<lparr>kvStore := filter (\<lambda>(k, it). field it (grp m' 1) \<noteq> VUndefined) (kvStore rt)\<rparr>) ptext
        = checkMono a rt ptext)
   \<and> (checkProperties strNum a rt = Inr False \<longrightarrow>
        (\<exists>ps p pre it. properties a = Some ps \<and> p \<in> set (map snd ps) \<and> scanPrefix a = Inr pre
           \<and> it \<in> set (kvScan rt pre)
           \<and> ((\<exists>mc. match p re_cmp = Some mc \<and> field it (jstr ''U'' @ grp mc 1) \<noteq> VUndefined)
              \<or> (\<exists>mm. match p re_mono = Some mm \<and> field it (grp mm 1) \<noteq> VUndefined))))"
proof -
  have last: "checkProperties strNum a rt = Inr False \<longrightarrow>
        (\<exists>ps p pre it. properties a = Some ps \<and> p \<in> set (map snd ps) \<and> scanPrefix a = Inr pre
           \<and> it \<in> set (kvScan rt pre)
           \<and> ((\<exists>mc. match p re_cmp = Some mc \<and> field it (jstr ''U'' @ grp mc 1) \<noteq> VUndefined)
              \<or> (\<exists>mm. match p re_mono = Some mm \<and> field it (grp mm 1) \<noteq> VUndefined)))"
  proof
    assume f: "checkProperties strNum a rt = Inr False"
    then obtain ps where ps: "properties a = Some ps"
      and cp: "checkProps strNum a rt (map snd ps) = Inr False"
      by (cases "properties a") (auto simp: checkProperties_def)
    obtain p where p: "p \<in> set (map snd ps)"
      and v: "checkCmp strNum a rt p = Inr False \<or> checkMono a rt p = Inr False"
      using checkProps_False [OF cp] by blast
    from v show "\<exists>ps p pre it. properties a = Some ps \<and> p \<in> set (map snd ps) \<and> scanPrefix a = Inr pre
           \<and> it \<in> set (kvScan rt pre)
           \<and> ((\<exists>mc. match p re_cmp = Some mc \<and> field it (jstr ''U'' @ grp mc 1) \<noteq> VUndefined)
              \<or> (\<exists>mm. match p re_mono = Some mm \<and> field it (grp mm 1) \<noteq> VUndefined))"
    proof
      assume "checkCmp strNum a rt p = Inr False"
      from checkCmp_False [OF this] ps p show ?thesis by blast
    next
      assume "checkMono a rt p = Inr False"
      from checkMono_False [OF this] ps p show ?thesis by blast
    qed
  qed
  show ?thesis
    using cmpItems_filter [of strNum fld op t items] monoItems_filter [of fld allowed items]
      checkCmp_filter [of ptext m strNum a rt] checkMono_filter [of ptext m' a rt] last
    by blast
qed

theorem absent_field_never_violates_witness:
  "checkCmp (\<lambda>s. None) ex_ast \<lparr>kvStore = [(jstr ''j:job1'', ex_job1)]\<rparr> (jstr ''U3(x) >= 0'')
     = checkCmp (\<lambda>s. None) ex_ast ex_rt6 (jstr ''U3(x) >= 0'')
   \<and> field ex_job3 (jstr ''U3'') = VUndefined
   \<and> kvScan ex_rt6 (jstr ''j:'') = [ex_job1, ex_job3]"
proof -
  have m: "match (jstr ''U3(x) >= 0'') re_cmp
      = Some [(Idx 3, jstr ''0''), (Idx 2, jstr ''>=''), (Idx 1, jstr ''3'')]"
    by (simp add: str_eval re_eval re_cmp_def)
  show ?thesis
    using m absent_field_never_violates [where strNum = "\<lambda>s. None" and a = ex_ast and rt = ex_rt6
      and ptext = "jstr ''U3(x) >= 0''"
      and m = "[(Idx 3, jstr ''0''), (Idx 2, jstr ''>=''), (Idx 1, jstr ''3'')]"]
    by (simp add: grp_def field_def objectPrototype_def ex_rt6_def ex_job1_def ex_job3_def
        jstr_simps kvScan_def startsWith_def)
qed

end
